theory Spec2Isabelle
  imports Main "HOL-Library.Sublist"
begin

section \<open>Text: characters and the string helpers of the source\<close>

text \<open>
  The source works on Python \<open>str\<close> values. A line is modelled as a \<open>string\<close>; a
  character is a code point below 256. The character classes are those of Python's
  \<open>re\<close> module on \<open>str\<close> patterns, which are also those of \<open>str.isspace\<close>:
  \<open>\s\<close> is the Unicode white space, \<open>\w\<close> the Unicode alphanumerics and the
  underscore, and \<open>.\<close> is every character but the line feed.
\<close>

definition is_space :: "char \<Rightarrow> bool" where
  "is_space c =
     (let n = (of_char c :: nat)
      in (9 \<le> n \<and> n \<le> 13) \<or> (28 \<le> n \<and> n \<le> 32) \<or> n = 133 \<or> n = 160)"

definition is_word :: "char \<Rightarrow> bool" where
  "is_word c =
     (let n = (of_char c :: nat)
      in (48 \<le> n \<and> n \<le> 57) \<or> (65 \<le> n \<and> n \<le> 90) \<or> n = 95 \<or> (97 \<le> n \<and> n \<le> 122)
         \<or> n = 170 \<or> n = 178 \<or> n = 179 \<or> n = 181 \<or> n = 185 \<or> n = 186
         \<or> (188 \<le> n \<and> n \<le> 190) \<or> (192 \<le> n \<and> n \<le> 214)
         \<or> (216 \<le> n \<and> n \<le> 246) \<or> (248 \<le> n \<and> n \<le> 255))"

definition is_dot :: "char \<Rightarrow> bool" where
  "is_dot c = (c \<noteq> CHR 0x0A)"

definition not_space :: "char \<Rightarrow> bool" where
  "not_space c = (\<not> is_space c)"

definition not_lbrace :: "char \<Rightarrow> bool" where
  "not_lbrace c = (c \<noteq> CHR ''{'')"

definition not_space_rbrace :: "char \<Rightarrow> bool" where
  "not_space_rbrace c = (\<not> is_space c \<and> c \<noteq> CHR ''}'')"

definition not_space_lbrace :: "char \<Rightarrow> bool" where
  "not_space_lbrace c = (\<not> is_space c \<and> c \<noteq> CHR ''{'')"

text \<open>\<open>str.strip()\<close>: the white space at both ends is removed.\<close>

definition strip :: "string \<Rightarrow> string" where
  "strip s = rev (dropWhile is_space (rev (dropWhile is_space s)))"

text \<open>\<open>str.endswith\<close> with a tuple of suffixes.\<close>

definition endswith :: "string \<Rightarrow> string list \<Rightarrow> bool" where
  "endswith s sufs = list_ex (\<lambda>suf. suffix suf s) sufs"

text \<open>\<open>str.lower()\<close> on the code points below 256.\<close>

definition lower_char :: "char \<Rightarrow> char" where
  "lower_char c =
     (let n = (of_char c :: nat)
      in if (65 \<le> n \<and> n \<le> 90) \<or> (192 \<le> n \<and> n \<le> 214) \<or> (216 \<le> n \<and> n \<le> 222)
         then char_of (n + 32) else c)"

definition lower :: "string \<Rightarrow> string" where
  "lower s = map lower_char s"

section \<open>Regular expressions as Python's \<open>re\<close> matches them\<close>

text \<open>
  The fragment of the pattern language the source uses. Every repetition in the
  source's patterns is a greedy repetition of a single-character class, so \<open>Star\<close>
  and \<open>Plus\<close> take a class. \<open>Grp n r\<close> is the n-th capturing group, \<open>Opt\<close> the
  greedy \<open>?\<close>, \<open>Bol\<close> is \<open>^\<close> (no MULTILINE flag) and \<open>Wordb\<close> is \<open>\b\<close>.
\<close>

datatype regex =
    Eps
  | Lit char
  | Cls "char \<Rightarrow> bool"
  | Star "char \<Rightarrow> bool"
  | Plus "char \<Rightarrow> bool"
  | Opt regex
  | Seq regex regex
  | Grp nat regex
  | Bol
  | Wordb

fun seqs :: "regex list \<Rightarrow> regex" where
  "seqs [] = Eps"
| "seqs (r # rs) = Seq r (seqs rs)"

definition lits :: "string \<Rightarrow> regex" where
  "lits s = seqs (map Lit s)"

text \<open>
  A position of the matcher: the character before it (\<open>None\<close> at the start of the
  string), the text still to read, and the groups captured so far, the latest first.
\<close>

type_synonym mstate = "char option \<times> string \<times> (nat \<times> string) list"

text \<open>
  The greedy repetition of a class tries the longest run first and gives characters back
  one at a time: the positions it can stop at, in the order a backtracking matcher
  tries them.
\<close>

fun star :: "(char \<Rightarrow> bool) \<Rightarrow> char option \<Rightarrow> string \<Rightarrow> (char option \<times> string) list" where
  "star P p [] = [(p, [])]"
| "star P p (c # cs) = (if P c then star P (Some c) cs @ [(p, c # cs)] else [(p, c # cs)])"

definition word_before :: "char option \<Rightarrow> bool" where
  "word_before p = (case p of None \<Rightarrow> False | Some c \<Rightarrow> is_word c)"

definition word_at :: "string \<Rightarrow> bool" where
  "word_at s = (case s of [] \<Rightarrow> False | c # _ \<Rightarrow> is_word c)"

text \<open>
  The backtracking matcher as a list of successes: every way the expression matches at
  a position, in the order Python's matcher finds them. The head is the match Python
  returns.
\<close>

fun rmatch :: "regex \<Rightarrow> mstate \<Rightarrow> mstate list" where
  "rmatch Eps st = [st]"
| "rmatch (Lit c) (p, s, g) =
     (case s of [] \<Rightarrow> [] | d # ds \<Rightarrow> if d = c then [(Some d, ds, g)] else [])"
| "rmatch (Cls P) (p, s, g) =
     (case s of [] \<Rightarrow> [] | d # ds \<Rightarrow> if P d then [(Some d, ds, g)] else [])"
| "rmatch (Star P) (p, s, g) = map (\<lambda>(q, r). (q, r, g)) (star P p s)"
| "rmatch (Plus P) (p, s, g) =
     (case s of [] \<Rightarrow> []
      | d # ds \<Rightarrow> if P d then map (\<lambda>(q, r). (q, r, g)) (star P (Some d) ds) else [])"
| "rmatch (Opt r) st = rmatch r st @ [st]"
| "rmatch (Seq r1 r2) st = concat (map (rmatch r2) (rmatch r1 st))"
| "rmatch (Grp n r) (p, s, g) =
     map (\<lambda>(q, s', g'). (q, s', (n, take (length s - length s') s) # g')) (rmatch r (p, s, g))"
| "rmatch Bol (p, s, g) = (if p = None then [(p, s, g)] else [])"
| "rmatch Wordb (p, s, g) = (if word_before p \<noteq> word_at s then [(p, s, g)] else [])"

text \<open>
  A match object: the matched text (group 0), the captured groups and the text after
  the match.
\<close>

record mtch =
  whole :: string
  caps :: "(nat \<times> string) list"
  after :: string

text \<open>\<open>m.group(n)\<close>; every group of the source's patterns takes part in every match.\<close>

definition group :: "mtch \<Rightarrow> nat \<Rightarrow> string" where
  "group m n = (case map_of (caps m) n of None \<Rightarrow> [] | Some t \<Rightarrow> t)"

text \<open>The match at one position, with \<open>p\<close> the character before it.\<close>

definition match_at :: "regex \<Rightarrow> char option \<Rightarrow> string \<Rightarrow> mtch option" where
  "match_at r p s =
     (case rmatch r (p, s, []) of
        [] \<Rightarrow> None
      | (q, s', g) # _ \<Rightarrow> Some \<lparr>whole = take (length s - length s') s, caps = g, after = s'\<rparr>)"

text \<open>\<open>re.match\<close>: a match at the start of the string.\<close>

definition re_match :: "regex \<Rightarrow> string \<Rightarrow> mtch option" where
  "re_match r s = match_at r None s"

text \<open>
  \<open>re.search\<close>: the match at the leftmost position that has one; every position up
  to the end of the string is tried in turn.
\<close>

fun search_from :: "regex \<Rightarrow> char option \<Rightarrow> string \<Rightarrow> mtch option" where
  "search_from r p [] = match_at r p []"
| "search_from r p (c # cs) =
     (case match_at r p (c # cs) of
        Some m \<Rightarrow> Some m
      | None \<Rightarrow> search_from r (Some c) cs)"

definition re_search :: "regex \<Rightarrow> string \<Rightarrow> mtch option" where
  "re_search r s = search_from r None s"

definition matches :: "regex \<Rightarrow> string \<Rightarrow> bool" where
  "matches r s = (re_search r s \<noteq> None)"

text \<open>
  What is left after a match is a suffix of the text the match started on, so the matched
  text and the rest together are that text.
\<close>

lemma star_suffix: "(q, s') \<in> set (star P p s) \<Longrightarrow> suffix s' s"
  by (induction s arbitrary: p) (auto split: if_splits simp: suffix_Cons)

lemma rmatch_suffix: "(q, s', g') \<in> set (rmatch r (p, s, g)) \<Longrightarrow> suffix s' s"
proof (induction r arbitrary: p s g q s' g')
  case (Seq r1 r2)
  from Seq.prems obtain q1 s1 g1 where
    a: "(q1, s1, g1) \<in> set (rmatch r1 (p, s, g))" and b: "(q, s', g') \<in> set (rmatch r2 (q1, s1, g1))"
    by auto
  from Seq.IH(1)[OF a] Seq.IH(2)[OF b] show ?case by (rule suffix_order.trans[rotated])
next
  case (Star P)
  then show ?case by (auto dest: star_suffix)
next
  case (Plus P)
  then show ?case by (auto split: list.splits if_splits dest!: star_suffix simp: suffix_Cons)
qed (auto split: list.splits if_splits simp: suffix_Cons)

lemma match_at_split: "match_at r p s = Some m \<Longrightarrow> s = whole m @ after m"
proof -
  assume a: "match_at r p s = Some m"
  then obtain q s' g rest where h: "rmatch r (p, s, []) = (q, s', g) # rest"
    and m: "m = \<lparr>whole = take (length s - length s') s, caps = g, after = s'\<rparr>"
    by (auto simp: match_at_def split: list.splits)
  from h have "(q, s', g) \<in> set (rmatch r (p, s, []))" by simp
  then have "suffix s' s" by (rule rmatch_suffix)
  then obtain u where "s = u @ s'" by (auto simp: suffix_def)
  with m show ?thesis by simp
qed

lemma match_at_shorter:
  "match_at r p s = Some m \<Longrightarrow> whole m \<noteq> [] \<Longrightarrow> length (after m) < length s"
  by (drule match_at_split) (cases "whole m", auto)

text \<open>
  \<open>re.sub\<close> with a replacement computed from the match: the positions are scanned from
  the left; at a match the replacement is emitted and the scan goes on after the match,
  elsewhere one character is copied. (The middle branch is Python's rule for a match of
  no characters; no pattern of the source that is substituted has one.)
\<close>

function sub_from :: "regex \<Rightarrow> (mtch \<Rightarrow> string) \<Rightarrow> char option \<Rightarrow> string \<Rightarrow> string" where
  "sub_from r f p [] = (case match_at r p [] of None \<Rightarrow> [] | Some m \<Rightarrow> f m)"
| "sub_from r f p (c # cs) =
     (case match_at r p (c # cs) of
        None \<Rightarrow> c # sub_from r f (Some c) cs
      | Some m \<Rightarrow>
          if whole m = [] then f m @ c # sub_from r f (Some c) cs
          else f m @ sub_from r f (Some (last (whole m))) (after m))"
  by pat_completeness auto
termination
  by (relation "measure (\<lambda>(r, f, p, s). length s)") (auto dest: match_at_shorter)

definition re_sub :: "regex \<Rightarrow> (mtch \<Rightarrow> string) \<Rightarrow> string \<Rightarrow> string" where
  "re_sub r f s = sub_from r f None s"

text \<open>
  The occurrences of a pattern in a text, as a scan from the left for matches that do
  not overlap finds them (\<open>re.finditer\<close>): the scan of \<open>re.sub\<close>, which replaces
  these occurrences.
\<close>

function finditer_from :: "regex \<Rightarrow> char option \<Rightarrow> string \<Rightarrow> mtch list" where
  "finditer_from r p [] = (case match_at r p [] of None \<Rightarrow> [] | Some m \<Rightarrow> [m])"
| "finditer_from r p (c # cs) =
     (case match_at r p (c # cs) of
        None \<Rightarrow> finditer_from r (Some c) cs
      | Some m \<Rightarrow>
          if whole m = [] then m # finditer_from r (Some c) cs
          else m # finditer_from r (Some (last (whole m))) (after m))"
  by pat_completeness auto
termination
  by (relation "measure (\<lambda>(r, p, s). length s)") (auto dest: match_at_shorter)

definition re_finditer :: "regex \<Rightarrow> string \<Rightarrow> mtch list" where
  "re_finditer r s = finditer_from r None s"

text \<open>
  The scan of \<open>re.sub\<close> and \<open>re.finditer\<close> cuts a text into pieces: the occurrences of
  the pattern it finds, and the characters between them, which it keeps.
\<close>

datatype piece = Kept char | Found mtch

function pieces_from :: "regex \<Rightarrow> char option \<Rightarrow> string \<Rightarrow> piece list" where
  "pieces_from r p [] = (case match_at r p [] of None \<Rightarrow> [] | Some m \<Rightarrow> [Found m])"
| "pieces_from r p (c # cs) =
     (case match_at r p (c # cs) of
        None \<Rightarrow> Kept c # pieces_from r (Some c) cs
      | Some m \<Rightarrow>
          if whole m = [] then Found m # Kept c # pieces_from r (Some c) cs
          else Found m # pieces_from r (Some (last (whole m))) (after m))"
  by pat_completeness auto
termination
  by (relation "measure (\<lambda>(r, p, s). length s)") (auto dest: match_at_shorter)

definition re_pieces :: "regex \<Rightarrow> string \<Rightarrow> piece list" where
  "re_pieces r s = pieces_from r None s"

section \<open>The patterns and messages of the source\<close>

text \<open>\<^verbatim>\<open>POINTER_SPACING_PATTERN = r'\b(\w+)\s*\*\s*(\w+)'\<close>\<close>

definition POINTER_SPACING_PATTERN :: regex where
  "POINTER_SPACING_PATTERN =
     seqs [Wordb, Grp 1 (Plus is_word), Star is_space, Lit CHR ''*'', Star is_space,
           Grp 2 (Plus is_word)]"

text \<open>\<^verbatim>\<open>ELSE_BRACE_PATTERN = r'^(\s*)}\s*(else(?: if)?\b[^{]*)\s*{'\<close>\<close>

definition ELSE_BRACE_PATTERN :: regex where
  "ELSE_BRACE_PATTERN =
     seqs [Bol, Grp 1 (Star is_space), Lit CHR ''}'', Star is_space,
           Grp 2 (seqs [lits ''else'', Opt (lits '' if''), Wordb, Star not_lbrace]),
           Star is_space, Lit CHR ''{'']"

text \<open>\<^verbatim>\<open>FUNCTION_BRACE_PATTERN = r'(.*\))\s*{\s*(.*)'\<close>\<close>

definition FUNCTION_BRACE_PATTERN :: regex where
  "FUNCTION_BRACE_PATTERN =
     seqs [Grp 1 (seqs [Star is_dot, Lit CHR '')'']), Star is_space, Lit CHR ''{'',
           Star is_space, Grp 2 (Star is_dot)]"

text \<open>\<^verbatim>\<open>BRACE_ON_SAME_LINE_PATTERN = r'\)\s*{'\<close>\<close>

definition BRACE_ON_SAME_LINE_PATTERN :: regex where
  "BRACE_ON_SAME_LINE_PATTERN = seqs [Lit CHR '')'', Star is_space, Lit CHR ''{'']"

text \<open>\<^verbatim>\<open>OPENING_BRACE_NOT_ALONE_PATTERN = r'[^\s].*{.*[^\s}]'\<close>\<close>

definition OPENING_BRACE_NOT_ALONE_PATTERN :: regex where
  "OPENING_BRACE_NOT_ALONE_PATTERN =
     seqs [Cls not_space, Star is_dot, Lit CHR ''{'', Star is_dot, Cls not_space_rbrace]"

text \<open>\<^verbatim>\<open>CLOSING_BRACE_NOT_ALONE_PATTERN = r'[^\s].*}.*[^\s{]'\<close>\<close>

definition CLOSING_BRACE_NOT_ALONE_PATTERN :: regex where
  "CLOSING_BRACE_NOT_ALONE_PATTERN =
     seqs [Cls not_space, Star is_dot, Lit CHR ''}'', Star is_dot, Cls not_space_lbrace]"

text \<open>\<^verbatim>\<open>INDENT_PATTERN = r'^\s*'\<close>\<close>

definition INDENT_PATTERN :: regex where
  "INDENT_PATTERN = seqs [Bol, Star is_space]"

text \<open>The four lint messages, by name: the text of a message plays no part below.\<close>

datatype message =
    MSG_POINTER_SPACING
  | MSG_BRACE_NEW_LINE
  | MSG_OPENING_BRACE_ALONE
  | MSG_CLOSING_BRACE_ALONE

text \<open>\<^verbatim>\<open>POINTER_SPACING_REPLACEMENT = r'\1 *\2'\<close>\<close>

definition POINTER_SPACING_REPLACEMENT :: "mtch \<Rightarrow> string" where
  "POINTER_SPACING_REPLACEMENT m = group m 1 @ '' *'' @ group m 2"

text \<open>\<^verbatim>\<open>C_EXTENSIONS = ('.c', '.h')\<close>\<close>

definition C_EXTENSIONS :: "string list" where
  "C_EXTENSIONS = [''.c'', ''.h'']"

section \<open>The Normalizer, the Rewriter and the Linter\<close>

abbreviation NL :: string where
  "NL \<equiv> [CHR 0x0A]"

text \<open>
  \<^verbatim>\<open>
  def fix_pointer_spacing(line):
      return re.sub(POINTER_SPACING_PATTERN, POINTER_SPACING_REPLACEMENT, line)
  \<close>
\<close>

definition fix_pointer_spacing :: "string \<Rightarrow> string" where
  "fix_pointer_spacing line = re_sub POINTER_SPACING_PATTERN POINTER_SPACING_REPLACEMENT line"

text \<open>
  \<open>re.match(INDENT_PATTERN, line).group()\<close>. The pattern matches every line (lemma
  \<open>indent_of_eq\<close> below), so the branch for no match is never taken.
\<close>

definition indent_of :: "string \<Rightarrow> string" where
  "indent_of line = (case re_match INDENT_PATTERN line of None \<Rightarrow> [] | Some m \<Rightarrow> whole m)"

text \<open>\<open>stripped in ("{", "}")\<close>\<close>

definition lone_brace :: "string \<Rightarrow> bool" where
  "lone_brace line = (strip line = ''{'' \<or> strip line = ''}'')"

text \<open>
  The body of the loop of \<open>fix_brace_placement\<close>: the lines appended to \<open>new_lines\<close>
  for one input line, the four cases in the order of the source.
\<close>

definition rewrite_line :: "string \<Rightarrow> string list" where
  "rewrite_line line =
     (let indent = indent_of line in
      if lone_brace line then [line]
      else case re_match ELSE_BRACE_PATTERN line of
        Some m \<Rightarrow>
          (let indent = group m 1; control = strip (group m 2)
           in [indent @ ''}'' @ NL, indent @ control @ NL, indent @ ''{'' @ NL])
      | None \<Rightarrow>
         (case re_search FUNCTION_BRACE_PATTERN line of
            Some m \<Rightarrow>
              (let prefix = group m 1; suffix = group m 2
               in [prefix @ NL, indent @ ''{'' @ NL]
                  @ (if strip suffix \<noteq> [] then [indent @ strip suffix @ NL] else []))
          | None \<Rightarrow> [line]))"

fun fix_brace_placement :: "string list \<Rightarrow> string list" where
  "fix_brace_placement [] = []"
| "fix_brace_placement (line # lines) = rewrite_line line @ fix_brace_placement lines"

text \<open>
  The four checks of \<open>lint_c_code\<close> on one line, in the order of the source; each
  \<open>print_lint_error\<close> is one message of the result.
\<close>

definition lint_line :: "string \<Rightarrow> message list" where
  "lint_line line =
     (if matches POINTER_SPACING_PATTERN line then [MSG_POINTER_SPACING] else [])
     @ (if matches BRACE_ON_SAME_LINE_PATTERN line then [MSG_BRACE_NEW_LINE] else [])
     @ (if matches OPENING_BRACE_NOT_ALONE_PATTERN line then [MSG_OPENING_BRACE_ALONE] else [])
     @ (if matches CLOSING_BRACE_NOT_ALONE_PATTERN line then [MSG_CLOSING_BRACE_ALONE] else [])"

text \<open>
  \<open>for i, line in enumerate(lines): lineno = i + 1\<close>: the diagnostics of the lines
  from index \<open>i\<close> on, as pairs of line number and message, in the order printed.
\<close>

fun lint_from :: "nat \<Rightarrow> string list \<Rightarrow> (nat \<times> message) list" where
  "lint_from i [] = []"
| "lint_from i (line # lines) = map (Pair (i + 1)) (lint_line line) @ lint_from (Suc i) lines"

definition lint_lines :: "string list \<Rightarrow> (nat \<times> message) list" where
  "lint_lines lines = lint_from 0 lines"

text \<open>The fix pass of \<open>lint_and_fix_c_file\<close> on the lines read.\<close>

definition fix_lines :: "string list \<Rightarrow> string list" where
  "fix_lines lines = fix_brace_placement (map fix_pointer_spacing lines)"

section \<open>Files, output and the command line\<close>

text \<open>
  What the program sees of its environment. \<open>isfile\<close> and \<open>isdir\<close> are
  \<open>os.path.isfile\<close> and \<open>os.path.isdir\<close>; \<open>walk\<close> is \<open>os.walk\<close>, one pair of a
  directory and the names of its files for every directory of the subtree (the
  subdirectory names, which the source ignores, are left out); \<open>data\<close> is the text
  stored in each file that can be opened and read, as decoded and before any translation
  of its line ends (\<open>None\<close>: \<open>open\<close> or \<open>readlines\<close> raises); \<open>writable\<close> says
  that opening the file for writing and writing it succeed; \<open>crlf\<close> says that
  \<open>os.linesep\<close> is carriage return and line feed, as on Windows, and not the line feed
  alone; \<open>printable\<close> says of each line that \<open>print\<close> can write it (standard output
  is open and can encode it: the status lines of the source hold U+2705 and U+274C, and
  every line but the usage line holds a file name); \<open>out\<close> is what has been printed,
  one event for every call of \<open>print\<close> that returned; \<open>opened\<close> lists every call
  of \<open>open\<close>, with the path and the mode.
\<close>

datatype mode = ForReading | ForWriting

datatype event =
    Usage
  | NotCFile string
  | NotFound string
  | Complete string
  | LintError string nat message

record world =
  isfile :: "string \<Rightarrow> bool"
  isdir :: "string \<Rightarrow> bool"
  walk :: "string \<Rightarrow> (string \<times> string list) list"
  data :: "string \<Rightarrow> string option"
  writable :: "string \<Rightarrow> bool"
  crlf :: bool
  printable :: "event \<Rightarrow> bool"
  out :: "event list"
  opened :: "(string \<times> mode) list"

text \<open>
  How a call ends: it returns, or an exception leaves it. The source catches no
  exception, so one that is raised ends the run.
\<close>

datatype run = Returns world | Raises world

text \<open>
  How the process ends: the script runs to its end, \<open>sys.exit(n)\<close> is called, or an
  exception is not caught. Python exits with status 0 in the first case, \<open>n\<close> in the
  second and 1 in the third.
\<close>

datatype ending = Completed | SysExit nat | Uncaught

fun exit_status :: "ending \<Rightarrow> nat" where
  "exit_status Completed = 0"
| "exit_status (SysExit n) = n"
| "exit_status Uncaught = 1"

text \<open>
  \<open>print\<close> raises when standard output does not take the line (\<open>UnicodeEncodeError\<close>
  for a character it cannot encode, \<open>OSError\<close> when it is closed).
\<close>

definition print :: "event \<Rightarrow> world \<Rightarrow> run" where
  "print e w = (if printable w e then Returns (w\<lparr>out := out w @ [e]\<rparr>) else Raises w)"

text \<open>Several calls of \<open>print\<close> in a row: the first that raises ends them.\<close>

fun print_all :: "event list \<Rightarrow> world \<Rightarrow> run" where
  "print_all [] w = Returns w"
| "print_all (e # es) w =
     (case print e w of Raises w' \<Rightarrow> Raises w' | Returns w' \<Rightarrow> print_all es w')"

definition open_file :: "string \<Rightarrow> mode \<Rightarrow> world \<Rightarrow> world" where
  "open_file path m w = w\<lparr>opened := opened w @ [(path, m)]\<rparr>"

text \<open>
  A file opened with \<open>open(filename, 'r')\<close> is read with universal newlines: a
  carriage return followed by a line feed, and a carriage return alone, are read as a
  line feed.
\<close>

fun universal_newlines :: "string \<Rightarrow> string" where
  "universal_newlines [] = []"
| "universal_newlines [c] = (if c = CHR 0x0D then [CHR 0x0A] else [c])"
| "universal_newlines (c # d # s) =
     (if c = CHR 0x0D \<and> d = CHR 0x0A then CHR 0x0A # universal_newlines s
      else if c = CHR 0x0D then CHR 0x0A # universal_newlines (d # s)
      else c # universal_newlines (d # s))"

text \<open>
  A file opened with \<open>open(filename, 'w')\<close> is written with every line feed replaced
  by \<open>os.linesep\<close>.
\<close>

definition linesep :: "bool \<Rightarrow> string" where
  "linesep windows = (if windows then [CHR 0x0D, CHR 0x0A] else [CHR 0x0A])"

definition to_linesep :: "string \<Rightarrow> string \<Rightarrow> string" where
  "to_linesep sep s = concat (map (\<lambda>c. if c = CHR 0x0A then sep else [c]) s)"

text \<open>\<open>f.readlines()\<close>: the lines of the text read, each with its line feed.\<close>

fun readlines :: "string \<Rightarrow> string list" where
  "readlines [] = []"
| "readlines (c # cs) =
     (if c = CHR 0x0A then [c] # readlines cs
      else (case readlines cs of [] \<Rightarrow> [[c]] | l # ls \<Rightarrow> (c # l) # ls))"

text \<open>\<open>f.writelines(lines)\<close> writes the lines one after the other.\<close>

definition writelines :: "string list \<Rightarrow> string" where
  "writelines lines = concat lines"

text \<open>
  \<^verbatim>\<open>
  def lint_and_fix_c_file(filename):
      with open(filename, 'r') as f:
          lines = f.readlines()
      lines = [fix_pointer_spacing(line) for line in lines]
      lines = fix_brace_placement(lines)
      with open(filename, 'w') as f:
          f.writelines(lines)
      print_status(MSG_LINTING_COMPLETE, filename)
  \<close>
\<close>

definition lint_and_fix_c_file :: "string \<Rightarrow> world \<Rightarrow> run" where
  "lint_and_fix_c_file filename w0 =
     (let w = open_file filename ForReading w0 in
      case data w filename of
        None \<Rightarrow> Raises w
      | Some text \<Rightarrow>
          (let lines = readlines (universal_newlines text);
               lines = map fix_pointer_spacing lines;
               lines = fix_brace_placement lines;
               w = open_file filename ForWriting w
           in if \<not> writable w filename then Raises w
              else print (Complete filename)
                     (w\<lparr>data := (data w)(filename \<mapsto>
                        to_linesep (linesep (crlf w)) (writelines lines))\<rparr>)))"

text \<open>
  \<open>lint_c_code\<close> opens the file again and prints one line for every diagnostic.
\<close>

definition lint_c_code :: "string \<Rightarrow> world \<Rightarrow> run" where
  "lint_c_code filename w0 =
     (let w = open_file filename ForReading w0 in
      case data w filename of
        None \<Rightarrow> Raises w
      | Some text \<Rightarrow>
          print_all
            (map (\<lambda>(lineno, msg). LintError filename lineno msg)
               (lint_lines (readlines (universal_newlines text)))) w)"

text \<open>\<open>os.path.join\<close> of POSIX.\<close>

definition join :: "string \<Rightarrow> string \<Rightarrow> string" where
  "join a b =
     (if b \<noteq> [] \<and> hd b = CHR ''/'' then b
      else if a = [] \<or> last a = CHR ''/'' then a @ b
      else a @ ''/'' @ b)"

text \<open>
  \<^verbatim>\<open>
  def get_all_c_files(path):
      c_files = []
      for root, _, files in os.walk(path):
          for f in files:
              if f.endswith(C_EXTENSIONS):
                  c_files.append(os.path.join(root, f))
      return c_files
  \<close>
\<close>

definition get_all_c_files :: "string \<Rightarrow> world \<Rightarrow> string list" where
  "get_all_c_files path w =
     concat (map (\<lambda>(root, files). map (join root) (filter (\<lambda>f. endswith f C_EXTENSIONS) files))
       (walk w path))"

text \<open>
  \<^verbatim>\<open>
  for file in files_to_lint:
      if do_fix:
          lint_and_fix_c_file(file)
      lint_c_code(file)
  \<close>
\<close>

fun process_files :: "bool \<Rightarrow> string list \<Rightarrow> world \<Rightarrow> run" where
  "process_files do_fix [] w = Returns w"
| "process_files do_fix (file # files) w =
     (case (if do_fix then lint_and_fix_c_file file w else Returns w) of
        Raises w1 \<Rightarrow> Raises w1
      | Returns w1 \<Rightarrow>
          (case lint_c_code file w1 of
             Raises w2 \<Rightarrow> Raises w2
           | Returns w2 \<Rightarrow> process_files do_fix files w2))"

text \<open>
  The script under \<open>if __name__ == "__main__"\<close>, on \<open>sys.argv\<close> and the environment:
  how the process ends, and the environment it leaves. \<open>print_and_exit\<close> is a call of
  \<open>print_status\<close> followed by \<open>sys.exit(1)\<close>.
\<close>

definition print_and_exit :: "event \<Rightarrow> world \<Rightarrow> ending \<times> world" where
  "print_and_exit e w =
     (case print e w of Raises w' \<Rightarrow> (Uncaught, w') | Returns w' \<Rightarrow> (SysExit 1, w'))"

definition main :: "string list \<Rightarrow> world \<Rightarrow> ending \<times> world" where
  "main argv w =
     (if length argv < 3 then print_and_exit Usage w
      else
        let target = argv ! 1;
            do_fix = (lower (argv ! 2) = ''true'');
            run_all = (\<lambda>files_to_lint.
              case process_files do_fix files_to_lint w of
                Raises w' \<Rightarrow> (Uncaught, w')
              | Returns w' \<Rightarrow> (Completed, w'))
        in if isfile w target then
             (if endswith target C_EXTENSIONS then run_all [target]
              else print_and_exit (NotCFile target) w)
           else if isdir w target then run_all (get_all_c_files target w)
           else print_and_exit (NotFound target) w)"

section \<open>Notions of the statements\<close>

text \<open>The text of a piece, the occurrences among the pieces, and the piece rewritten.\<close>

fun piece_text :: "piece \<Rightarrow> string" where
  "piece_text (Kept c) = [c]"
| "piece_text (Found m) = whole m"

fun found :: "piece list \<Rightarrow> mtch list" where
  "found [] = []"
| "found (Kept c # ps) = found ps"
| "found (Found m # ps) = m # found ps"

fun piece_replaced :: "(mtch \<Rightarrow> string) \<Rightarrow> piece \<Rightarrow> string" where
  "piece_replaced f (Kept c) = [c]"
| "piece_replaced f (Found m) = f m"

text \<open>
  \<open>WORD SPACE *WORD\<close>: the first word, one space, the asterisk, the second word.
\<close>

definition word_space_star_word :: "mtch \<Rightarrow> string" where
  "word_space_star_word m = group m 1 @ '' *'' @ group m 2"

text \<open>An occurrence of the pointer pattern: the matched text and the two words.\<close>

definition occurrence :: "mtch \<Rightarrow> string \<times> string \<times> string" where
  "occurrence m = (whole m, group m 1, group m 2)"

text \<open>The normal form of an occurrence: one space before the asterisk, none after.\<close>

definition normal :: "string \<times> string \<times> string \<Rightarrow> string \<times> string \<times> string" where
  "normal x = (case x of (t, w1, w2) \<Rightarrow> (w1 @ '' *'' @ w2, w1, w2))"

text \<open>The environment a call leaves, whether it returns or raises.\<close>

fun after_run :: "run \<Rightarrow> world" where
  "after_run (Returns w) = w"
| "after_run (Raises w) = w"

text \<open>
  The line ends of a text are those that writing gives it: with the line feed as
  \<open>os.linesep\<close>, the text holds no carriage return; with carriage return and line
  feed, every line feed follows a carriage return and every carriage return is followed
  by a line feed.
\<close>

fun native_line_ends :: "bool \<Rightarrow> string \<Rightarrow> bool" where
  "native_line_ends windows [] = True"
| "native_line_ends windows [c] = (c \<noteq> CHR 0x0D \<and> \<not> (c = CHR 0x0A \<and> windows))"
| "native_line_ends windows (c # d # s) =
     (if c = CHR 0x0D then windows \<and> d = CHR 0x0A \<and> native_line_ends windows s
      else if c = CHR 0x0A then \<not> windows \<and> native_line_ends windows (d # s)
      else native_line_ends windows (d # s))"

text \<open>
  The files the script selects (\<open>files_to_lint\<close> in the source), and the condition
  that every file operation of the run on them succeeds.
\<close>

definition files_to_lint :: "string list \<Rightarrow> world \<Rightarrow> string list" where
  "files_to_lint argv w =
     (if isfile w (argv ! 1) then [argv ! 1] else get_all_c_files (argv ! 1) w)"






definition text_dir_world :: world where
  "text_dir_world =
     \<lparr>isfile = (\<lambda>p. False), isdir = (\<lambda>p. p = ''docs''),
      walk = (\<lambda>p. if p = ''docs'' then [(''docs'', [''b.txt'']), (''docs/sub'', [])] else []),
      data = (\<lambda>p. if p = ''docs/b.txt'' then Some ''int* x;'' else None),
      writable = (\<lambda>p. True), crlf = False, printable = (\<lambda>e. True),
      out = [], opened = []\<rparr>"


definition clean_file_world :: world where
  "clean_file_world =
     \<lparr>isfile = (\<lambda>p. p = ''a.c''), isdir = (\<lambda>p. False), walk = (\<lambda>p. []),
      data = (\<lambda>p. if p = ''a.c'' then Some (''int x;'' @ NL @ ''{'' @ NL @ ''}'') else None),
      writable = (\<lambda>p. p = ''a.c''), crlf = False, printable = (\<lambda>e. True),
      out = [], opened = []\<rparr>"

definition crlf_file_world :: world where
  "crlf_file_world =
     \<lparr>isfile = (\<lambda>p. p = ''a.c''), isdir = (\<lambda>p. False), walk = (\<lambda>p. []),
      data = (\<lambda>p. if p = ''a.c'' then Some (''int x;'' @ [CHR 0x0D, CHR 0x0A]) else None),
      writable = (\<lambda>p. p = ''a.c''), crlf = False, printable = (\<lambda>e. True),
      out = [], opened = []\<rparr>"

section \<open>Notions of the proofs\<close>

text \<open>The character before the position reached after reading \<open>u\<close>.\<close>

definition prev_after :: "char option \<Rightarrow> string \<Rightarrow> char option" where
  "prev_after p u = (if u = [] then p else Some (last u))"

text \<open>
  The shape the pointer pattern matches at a position: a run of word characters, white
  space, an asterisk, white space, a run of word characters. The result is the two words
  and the text after the second.
\<close>

definition ptr_split :: "string \<Rightarrow> (string \<times> string \<times> string) option" where
  "ptr_split s =
     (if takeWhile is_word s = [] then None
      else case dropWhile is_space (dropWhile is_word s) of
        [] \<Rightarrow> None
      | c # r3 \<Rightarrow>
          if c \<noteq> CHR ''*'' \<or> takeWhile is_word (dropWhile is_space r3) = [] then None
          else Some (takeWhile is_word s, takeWhile is_word (dropWhile is_space r3),
                     dropWhile is_word (dropWhile is_space r3)))"

text \<open>The scan of \<open>fix_pointer_spacing\<close> from a position.\<close>

definition pnorm :: "char option \<Rightarrow> string \<Rightarrow> string" where
  "pnorm p s = sub_from POINTER_SPACING_PATTERN POINTER_SPACING_REPLACEMENT p s"

definition pocc :: "char option \<Rightarrow> string \<Rightarrow> (string \<times> string \<times> string) list" where
  "pocc p s = map occurrence (finditer_from POINTER_SPACING_PATTERN p s)"

text \<open>What the pointer pattern asks of the text after the first word, and after the asterisk.\<close>

definition after_star :: "string \<Rightarrow> bool" where
  "after_star r = word_at (dropWhile is_space r)"

definition after_word :: "string \<Rightarrow> bool" where
  "after_word r = (case dropWhile is_space r of [] \<Rightarrow> False | c # r3 \<Rightarrow> c = CHR ''*'' \<and> after_star r3)"

text \<open>
  The part of \<open>FUNCTION_BRACE_PATTERN\<close> after its first group, and what the pattern
  does at one stopping position of the \<open>.*\<close> of that group: the closing parenthesis,
  then the rest of the pattern.
\<close>

definition brace_tail :: regex where
  "brace_tail = seqs [Star is_space, Lit CHR ''{'', Star is_space, Grp 2 (Star is_dot)]"

definition after_prefix :: "string \<Rightarrow> char option \<times> string \<Rightarrow> mstate list" where
  "after_prefix s x =
     (case snd x of
        [] \<Rightarrow> []
      | c # v \<Rightarrow>
          if c = CHR '')'' then rmatch brace_tail (Some c, v, [(1, take (length s - length v) s)])
          else [])"


section \<open>Character classes and lists\<close>

lemma not_word_star [simp]: "\<not> is_word CHR ''*''" "\<not> is_space CHR ''*''"
  by (simp_all add: is_word_def is_space_def)

lemma not_word_space [simp]: "\<not> is_word CHR '' ''" "is_space CHR '' ''"
  by (simp_all add: is_word_def is_space_def)

lemma not_space_braces [simp]:
  "\<not> is_space CHR ''}''" "\<not> is_space CHR ''{''" "\<not> is_space CHR '')''"
  by (simp_all add: is_space_def)

lemma word_not_space: "is_word c \<Longrightarrow> \<not> is_space c"
  by (auto simp: is_word_def is_space_def Let_def)

lemma space_not_word: "is_space c \<Longrightarrow> \<not> is_word c"
  using word_not_space by blast

lemma dropWhile_word_at [simp]: "\<not> word_at (dropWhile is_word s)"
  by (induction s) (auto simp: word_at_def)

lemma takeWhile_word_at_iff: "(takeWhile is_word s = []) = (\<not> word_at s)"
  by (cases s) (auto simp: word_at_def)

lemma takeWhile_word_at: "\<not> word_at v \<Longrightarrow> (\<forall>c \<in> set u. is_word c) \<Longrightarrow>
  takeWhile is_word (u @ v) = u \<and> dropWhile is_word (u @ v) = v"
  by (cases v) (auto simp: word_at_def takeWhile_append dropWhile_append)

lemma dropWhile_Cons_not: "dropWhile P xs = y # ys \<Longrightarrow> \<not> P y"
  by (metis hd_dropWhile list.sel(1) list.simps(3))

lemma takeWhile_until: "(\<forall>c \<in> set u. P c) \<Longrightarrow> \<not> P x \<Longrightarrow> takeWhile P (u @ x # r) = u"
  by (simp add: takeWhile_tail)

lemma dropWhile_keeps: "x \<in> set xs \<Longrightarrow> \<not> P x \<Longrightarrow> x \<in> set (dropWhile P xs)"
  by (induction xs) auto

lemma strip_keeps: "c \<in> set s \<Longrightarrow> \<not> is_space c \<Longrightarrow> c \<in> set (strip s)"
  by (simp add: strip_def dropWhile_keeps)

lemma in_butlast: "s = u @ c # v \<Longrightarrow> x \<in> set u \<Longrightarrow> x \<in> set (butlast s)"
  by (simp add: butlast_append)

lemma take_length_dropWhile: "take (length s - length (dropWhile P s)) s = takeWhile P s"
proof -
  have "length s - length (dropWhile P s) = length (takeWhile P s)"
    by (metis add_diff_cancel_right' length_append takeWhile_dropWhile_id)
  then show ?thesis
    by (metis append_eq_conv_conj takeWhile_dropWhile_id)
qed

lemma take_append_length: "take (length (u @ v) - length v) (u @ v) = u"
  by simp

lemma hd_concat_map:
  "xs \<noteq> [] \<Longrightarrow> f (hd xs) \<noteq> [] \<Longrightarrow>
   concat (map f xs) \<noteq> [] \<and> hd (concat (map f xs)) = hd (f (hd xs))"
  by (cases xs) auto

section \<open>Properties of the matcher\<close>

lemma prev_after_simps [simp]:
  "prev_after p [] = p"
  "prev_after p (c # u) = prev_after (Some c) u"
  "prev_after p (u @ [c]) = Some c"
  by (simp_all add: prev_after_def)

lemma prev_after_append: "prev_after p (u @ v) = prev_after (prev_after p u) v"
  by (simp add: prev_after_def)

lemma star_mem:
  "((q, v) \<in> set (star P p s)) = (\<exists>u. s = u @ v \<and> (\<forall>c \<in> set u. P c) \<and> q = prev_after p u)"
proof (induction s arbitrary: p)
  case Nil
  then show ?case by auto
next
  case (Cons c cs)
  show ?case
  proof (cases "P c")
    case True
    show ?thesis
    proof
      assume "(q, v) \<in> set (star P p (c # cs))"
      with True have "(q, v) \<in> set (star P (Some c) cs) \<or> (q, v) = (p, c # cs)" by auto
      then show "\<exists>u. c # cs = u @ v \<and> (\<forall>c \<in> set u. P c) \<and> q = prev_after p u"
      proof
        assume "(q, v) \<in> set (star P (Some c) cs)"
        with Cons.IH obtain u where "cs = u @ v" "\<forall>c \<in> set u. P c" "q = prev_after (Some c) u"
          by blast
        with True show ?thesis by (intro exI[of _ "c # u"]) simp
      next
        assume "(q, v) = (p, c # cs)"
        then show ?thesis by (intro exI[of _ "[]"]) simp
      qed
    next
      assume "\<exists>u. c # cs = u @ v \<and> (\<forall>c \<in> set u. P c) \<and> q = prev_after p u"
      then obtain u where h: "c # cs = u @ v" "\<forall>c \<in> set u. P c" "q = prev_after p u" by blast
      show "(q, v) \<in> set (star P p (c # cs))"
      proof (cases u)
        case Nil
        with h have "v = c # cs" "q = p" by simp_all
        with True show ?thesis by simp
      next
        case (Cons d u')
        with h have "cs = u' @ v" "\<forall>c \<in> set u'. P c" "q = prev_after (Some c) u'" by auto
        with Cons.IH[of "Some c"] have "(q, v) \<in> set (star P (Some c) cs)" by blast
        with True show ?thesis by simp
      qed
    qed
  next
    case False
    then show ?thesis by (auto simp: Cons_eq_append_conv)
  qed
qed

lemma star_ne [simp]: "star P p s \<noteq> []"
  by (cases s) auto

lemma star_hd: "hd (star P p s) = (prev_after p (takeWhile P s), dropWhile P s)"
  by (induction s arbitrary: p) (auto)

lemma star_split:
  "(\<forall>x \<in> set u. P x) \<Longrightarrow> P c \<Longrightarrow>
   \<exists>later. star P p (u @ c # v) = star P (Some c) v @ (prev_after p u, c # v) # later"
proof (induction u arbitrary: p)
  case Nil
  then show ?case by simp
next
  case (Cons d u)
  then obtain later where
    "star P (Some d) (u @ c # v) = star P (Some c) v @ (prev_after (Some d) u, c # v) # later"
    by fastforce
  with Cons.prems show ?case by simp
qed

lemma match_at_None: "(match_at r p s = None) = (rmatch r (p, s, []) = [])"
  by (auto simp: match_at_def split: list.splits)

lemma match_at_mem:
  "match_at r p s = Some m \<Longrightarrow>
     \<exists>q. (q, after m, caps m) \<in> set (rmatch r (p, s, [])) \<and> s = whole m @ after m"
proof -
  assume a: "match_at r p s = Some m"
  then obtain q s' g rest where h: "rmatch r (p, s, []) = (q, s', g) # rest"
    and m: "m = \<lparr>whole = take (length s - length s') s, caps = g, after = s'\<rparr>"
    by (auto simp: match_at_def split: list.splits)
  from h have "(q, s', g) \<in> set (rmatch r (p, s, []))" by simp
  moreover from m have "after m = s'" "caps m = g" by simp_all
  ultimately show ?thesis using match_at_split[OF a] by blast
qed

lemma match_at_ex: "(match_at r p s \<noteq> None) = (\<exists>x. x \<in> set (rmatch r (p, s, [])))"
  by (cases "rmatch r (p, s, [])") (auto simp: match_at_def)

lemma search_from_iff:
  "(search_from r p s \<noteq> None) = (\<exists>u v. s = u @ v \<and> match_at r (prev_after p u) v \<noteq> None)"
proof (induction s arbitrary: p)
  case Nil
  then show ?case by simp
next
  case (Cons c cs)
  show ?case
  proof (cases "match_at r p (c # cs)")
    case None
    have "(\<exists>u v. c # cs = u @ v \<and> match_at r (prev_after p u) v \<noteq> None)
        = (\<exists>u v. cs = u @ v \<and> match_at r (prev_after (Some c) u) v \<noteq> None)"
      (is "?L = ?R")
    proof
      assume ?L
      then obtain u v where h: "c # cs = u @ v" "match_at r (prev_after p u) v \<noteq> None" by blast
      with None obtain u' where "u = c # u'" by (cases u) auto
      with h show ?R by auto
    next
      assume ?R
      then obtain u v where "cs = u @ v" "match_at r (prev_after (Some c) u) v \<noteq> None" by blast
      then show ?L by (intro exI[of _ "c # u"] exI[of _ v]) simp
    qed
    with None Cons.IH[of "Some c"] show ?thesis by simp
  next
    case (Some m)
    then have "\<exists>u v. c # cs = u @ v \<and> match_at r (prev_after p u) v \<noteq> None"
      by (intro exI[of _ "[]"] exI[of _ "c # cs"]) simp
    with Some show ?thesis by simp
  qed
qed

lemma search_from_Some:
  "search_from r p s = Some m \<Longrightarrow> \<exists>u v. s = u @ v \<and> match_at r (prev_after p u) v = Some m"
proof (induction s arbitrary: p)
  case Nil
  then show ?case by simp
next
  case (Cons c cs)
  show ?case
  proof (cases "match_at r p (c # cs)")
    case None
    with Cons.prems have "search_from r (Some c) cs = Some m" by simp
    from Cons.IH[OF this] obtain u v where "cs = u @ v" "match_at r (prev_after (Some c) u) v = Some m"
      by blast
    then show ?thesis by (intro exI[of _ "c # u"] exI[of _ v]) simp
  next
    case (Some m')
    with Cons.prems have "m' = m" by simp
    with Some show ?thesis by (intro exI[of _ "[]"] exI[of _ "c # cs"]) simp
  qed
qed

lemma search_from_leftmost:
  "search_from r p s = Some m \<Longrightarrow>
     \<exists>u v. s = u @ v \<and> match_at r (prev_after p u) v = Some m
        \<and> (u \<noteq> [] \<longrightarrow> match_at r p s = None)"
proof (induction s arbitrary: p)
  case Nil
  then show ?case by simp
next
  case (Cons c cs)
  show ?case
  proof (cases "match_at r p (c # cs)")
    case None
    with Cons.prems have "search_from r (Some c) cs = Some m" by simp
    from Cons.IH[OF this] obtain u v where "cs = u @ v" "match_at r (prev_after (Some c) u) v = Some m"
      by blast
    with None show ?thesis by (intro exI[of _ "c # u"] exI[of _ v]) simp
  next
    case (Some m')
    with Cons.prems have "m' = m" by simp
    with Some show ?thesis by (intro exI[of _ "[]"] exI[of _ "c # cs"]) simp
  qed
qed

lemma search_from_first: "match_at r p s = Some m \<Longrightarrow> search_from r p s = Some m"
  by (cases s) simp_all

lemma sub_from_no_match: "search_from r p s = None \<Longrightarrow> sub_from r f p s = s"
  by (induction r p s rule: search_from.induct) (auto split: option.splits)

lemma concat_map_star_det:
  assumes "\<And>q c v. P c \<Longrightarrow> f (q, c # v) = []"
  shows "concat (map f (star P p s)) = f (prev_after p (takeWhile P s), dropWhile P s)"
  using assms by (induction s arbitrary: p) auto

lemma seq_star_det:
  assumes "\<And>q c v. P c \<Longrightarrow> rmatch r (q, c # v, g) = []"
  shows "rmatch (Seq (Star P) r) (p, s, g) =
           rmatch r (prev_after p (takeWhile P s), dropWhile P s, g)"
proof -
  have "rmatch (Seq (Star P) r) (p, s, g) = concat (map (\<lambda>(q, v). rmatch r (q, v, g)) (star P p s))"
    by (simp add: comp_def case_prod_unfold)
  also have "\<dots> = (\<lambda>(q, v). rmatch r (q, v, g)) (prev_after p (takeWhile P s), dropWhile P s)"
    by (rule concat_map_star_det) (simp add: assms)
  finally show ?thesis by simp
qed

lemma seq_grp_plus_det:
  assumes "\<And>q c v g'. P c \<Longrightarrow> rmatch r (q, c # v, g') = []"
  shows "rmatch (Seq (Grp n (Plus P)) r) (p, s, g) =
           (if takeWhile P s = [] then []
            else rmatch r (prev_after p (takeWhile P s), dropWhile P s, (n, takeWhile P s) # g))"
proof (cases s)
  case Nil
  then show ?thesis by simp
next
  case (Cons c cs)
  show ?thesis
  proof (cases "P c")
    case False
    with Cons show ?thesis by simp
  next
    case True
    let ?f = "\<lambda>(q, v). rmatch r (q, v, (n, take (length s - length v) s) # g)"
    have "rmatch (Seq (Grp n (Plus P)) r) (p, s, g) = concat (map ?f (star P (Some c) cs))"
      using Cons True by (simp add: comp_def case_prod_unfold)
    also have "\<dots> = ?f (prev_after (Some c) (takeWhile P cs), dropWhile P cs)"
      by (rule concat_map_star_det) (simp add: assms)
    also have "\<dots> = rmatch r (prev_after p (takeWhile P s), dropWhile P s, (n, takeWhile P s) # g)"
      using Cons True take_length_dropWhile[of s P] by simp
    finally show ?thesis using Cons True by simp
  qed
qed

lemma grp_plus_hd:
  "rmatch (Grp n (Plus P)) (p, s, g) =
     (if takeWhile P s = [] then []
      else (prev_after p (takeWhile P s), dropWhile P s, (n, takeWhile P s) # g)
           # tl (rmatch (Grp n (Plus P)) (p, s, g)))"
proof (cases s)
  case Nil
  then show ?thesis by simp
next
  case (Cons c cs)
  show ?thesis
  proof (cases "P c")
    case False
    with Cons show ?thesis by simp
  next
    case True
    have ne: "rmatch (Grp n (Plus P)) (p, s, g) \<noteq> []" using Cons True by simp
    have "hd (rmatch (Grp n (Plus P)) (p, s, g)) =
        (prev_after p (takeWhile P s), dropWhile P s, (n, takeWhile P s) # g)"
      using Cons True take_length_dropWhile[of s P] by (simp add: hd_map star_hd)
    with ne show ?thesis using Cons True by (metis (no_types, lifting) list.collapse list.simps(3) takeWhile.simps(2))
  qed
qed

lemma grp_plus_nil: "takeWhile P s = [] \<Longrightarrow> rmatch (Grp n (Plus P)) (p, s, g) = []"
  by (cases s) (auto split: if_splits)

lemma grp_star_hd:
  "rmatch (Grp n (Star P)) (p, s, g) \<noteq> [] \<and>
   hd (rmatch (Grp n (Star P)) (p, s, g)) =
     (prev_after p (takeWhile P s), dropWhile P s, (n, takeWhile P s) # g)"
  by (simp add: hd_map star_hd take_length_dropWhile)

lemma seq_eps [simp]: "rmatch (Seq r Eps) st = rmatch r st"
proof -
  have "rmatch Eps = (\<lambda>x. [x])" by (rule ext) simp
  then show ?thesis by simp
qed

lemma seq_lit:
  "rmatch (Seq (Lit c) r) (p, s, g) =
     (case s of [] \<Rightarrow> [] | d # ds \<Rightarrow> if d = c then rmatch r (Some d, ds, g) else [])"
  by (simp split: list.splits)

lemma seq_cls:
  "rmatch (Seq (Cls P) r) (p, s, g) =
     (case s of [] \<Rightarrow> [] | d # ds \<Rightarrow> if P d then rmatch r (Some d, ds, g) else [])"
  by (simp split: list.splits)

lemma seq_wordb:
  "rmatch (Seq Wordb r) (p, s, g) = (if word_before p \<noteq> word_at s then rmatch r (p, s, g) else [])"
  by simp

lemma seq_bol:
  "rmatch (Seq Bol r) (p, s, g) = (if p = None then rmatch r (p, s, g) else [])"
  by auto

lemma mem_eps: "(x \<in> set (rmatch Eps st)) = (x = st)"
  by auto

lemma mem_lit:
  "((q, v, g') \<in> set (rmatch (Lit c) (p, s, g))) = (s = c # v \<and> q = Some c \<and> g' = g)"
  by (auto split: list.splits)

lemma mem_cls:
  "((q, v, g') \<in> set (rmatch (Cls P) (p, s, g))) = (\<exists>c. s = c # v \<and> P c \<and> q = Some c \<and> g' = g)"
  by (auto split: list.splits)

lemma mem_star:
  "((q, v, g') \<in> set (rmatch (Star P) (p, s, g))) =
     (g' = g \<and> (\<exists>u. s = u @ v \<and> (\<forall>c \<in> set u. P c) \<and> q = prev_after p u))"
  by (auto simp: star_mem)

lemma mem_seq:
  "(x \<in> set (rmatch (Seq r1 r2) st)) = (\<exists>y \<in> set (rmatch r1 st). x \<in> set (rmatch r2 y))"
  by auto

lemma mem_opt: "(x \<in> set (rmatch (Opt r) st)) = (x \<in> set (rmatch r st) \<or> x = st)"
  by auto

lemma mem_grp:
  "((q, v, g') \<in> set (rmatch (Grp n r) (p, s, g))) =
     (\<exists>g''. (q, v, g'') \<in> set (rmatch r (p, s, g)) \<and> g' = (n, take (length s - length v) s) # g'')"
  by (auto simp: image_iff) force

lemma mem_bol: "(x \<in> set (rmatch Bol (p, s, g))) = (p = None \<and> x = (p, s, g))"
  by auto

lemma mem_wordb:
  "(x \<in> set (rmatch Wordb (p, s, g))) = (word_before p \<noteq> word_at s \<and> x = (p, s, g))"
  by auto

lemma mem_seq_lit:
  "(x \<in> set (rmatch (Seq (Lit c) r) (p, s, g))) =
     (\<exists>v. s = c # v \<and> x \<in> set (rmatch r (Some c, v, g)))"
  by (auto split: list.splits)

lemma mem_seq_cls:
  "(x \<in> set (rmatch (Seq (Cls P) r) (p, s, g))) =
     (\<exists>c v. s = c # v \<and> P c \<and> x \<in> set (rmatch r (Some c, v, g)))"
  by (auto split: list.splits)

lemma mem_seq_star:
  "(x \<in> set (rmatch (Seq (Star P) r) (p, s, g))) =
     (\<exists>u v. s = u @ v \<and> (\<forall>c \<in> set u. P c) \<and> x \<in> set (rmatch r (prev_after p u, v, g)))"
proof -
  have "(x \<in> set (rmatch (Seq (Star P) r) (p, s, g))) =
      (\<exists>q v. (q, v) \<in> set (star P p s) \<and> x \<in> set (rmatch r (q, v, g)))"
  proof
    assume "x \<in> set (rmatch (Seq (Star P) r) (p, s, g))"
    then obtain y where "y \<in> set (star P p s)" "x \<in> set (rmatch r (fst y, snd y, g))"
      by (auto simp: case_prod_unfold)
    then show "\<exists>q v. (q, v) \<in> set (star P p s) \<and> x \<in> set (rmatch r (q, v, g))"
      by (intro exI[of _ "fst y"] exI[of _ "snd y"]) simp
  next
    assume "\<exists>q v. (q, v) \<in> set (star P p s) \<and> x \<in> set (rmatch r (q, v, g))"
    then obtain q v where "(q, v) \<in> set (star P p s)" "x \<in> set (rmatch r (q, v, g))" by blast
    then have "\<exists>y \<in> set (star P p s). x \<in> set (rmatch r (fst y, snd y, g))"
      by (intro bexI[of _ "(q, v)"]) simp_all
    then show "x \<in> set (rmatch (Seq (Star P) r) (p, s, g))"
      by (simp add: case_prod_unfold)
  qed
  then show ?thesis unfolding star_mem by blast
qed

lemma mem_seq_grp:
  "(x \<in> set (rmatch (Seq (Grp n r1) r) (p, s, g))) =
     (\<exists>q v g''. (q, v, g'') \<in> set (rmatch r1 (p, s, g))
        \<and> x \<in> set (rmatch r (q, v, (n, take (length s - length v) s) # g'')))"
proof
  assume "x \<in> set (rmatch (Seq (Grp n r1) r) (p, s, g))"
  then obtain y where "y \<in> set (rmatch r1 (p, s, g))"
    "x \<in> set (rmatch r (fst y, fst (snd y),
        (n, take (length s - length (fst (snd y))) s) # snd (snd y)))"
    by (auto simp: case_prod_unfold)
  then show "\<exists>q v g''. (q, v, g'') \<in> set (rmatch r1 (p, s, g))
        \<and> x \<in> set (rmatch r (q, v, (n, take (length s - length v) s) # g''))"
    by (intro exI[of _ "fst y"] exI[of _ "fst (snd y)"] exI[of _ "snd (snd y)"]) simp
next
  assume "\<exists>q v g''. (q, v, g'') \<in> set (rmatch r1 (p, s, g))
        \<and> x \<in> set (rmatch r (q, v, (n, take (length s - length v) s) # g''))"
  then obtain q v g'' where "(q, v, g'') \<in> set (rmatch r1 (p, s, g))"
    "x \<in> set (rmatch r (q, v, (n, take (length s - length v) s) # g''))" by blast
  then have "\<exists>y \<in> set (rmatch r1 (p, s, g)). x \<in> set (rmatch r (fst y, fst (snd y),
        (n, take (length s - length (fst (snd y))) s) # snd (snd y)))"
    by (intro bexI[of _ "(q, v, g'')"]) simp_all
  then show "x \<in> set (rmatch (Seq (Grp n r1) r) (p, s, g))"
    by (simp add: case_prod_unfold)
qed

lemma mem_seq_bol:
  "(x \<in> set (rmatch (Seq Bol r) (p, s, g))) = (p = None \<and> x \<in> set (rmatch r (p, s, g)))"
  by auto

lemma mem_seq_wordb:
  "(x \<in> set (rmatch (Seq Wordb r) (p, s, g))) =
     (word_before p \<noteq> word_at s \<and> x \<in> set (rmatch r (p, s, g)))"
  by auto

lemma mem_seq_opt:
  "(x \<in> set (rmatch (Seq (Opt r1) r) st)) =
     (x \<in> set (rmatch (Seq r1 r) st) \<or> x \<in> set (rmatch r st))"
  by auto

lemma mem_seq_eps: "(x \<in> set (rmatch (Seq Eps r) st)) = (x \<in> set (rmatch r st))"
  by auto

lemma mem_seq_seq:
  "(x \<in> set (rmatch (Seq (Seq a b) r) st)) = (x \<in> set (rmatch (Seq a (Seq b r)) st))"
  by auto

lemmas mem_rules = mem_eps mem_lit mem_cls mem_star mem_grp mem_bol mem_wordb mem_opt
  mem_seq_lit mem_seq_cls mem_seq_star mem_seq_grp mem_seq_bol mem_seq_wordb mem_seq_opt
  mem_seq_eps mem_seq_seq

lemma mem_seq_grp_text:
  "(x \<in> set (rmatch (Seq (Grp n r1) r) (p, s, g))) =
     (\<exists>q u v g''. s = u @ v \<and> (q, v, g'') \<in> set (rmatch r1 (p, s, g))
        \<and> x \<in> set (rmatch r (q, v, (n, u) # g'')))"
proof
  assume "x \<in> set (rmatch (Seq (Grp n r1) r) (p, s, g))"
  then obtain q v g'' where h: "(q, v, g'') \<in> set (rmatch r1 (p, s, g))"
    "x \<in> set (rmatch r (q, v, (n, take (length s - length v) s) # g''))"
    unfolding mem_seq_grp by blast
  from rmatch_suffix[OF h(1)] obtain u where "s = u @ v" by (auto simp: suffix_def)
  with h show "\<exists>q u v g''. s = u @ v \<and> (q, v, g'') \<in> set (rmatch r1 (p, s, g))
        \<and> x \<in> set (rmatch r (q, v, (n, u) # g''))"
    by (intro exI[of _ q] exI[of _ u] exI[of _ v] exI[of _ g'']) simp
next
  assume "\<exists>q u v g''. s = u @ v \<and> (q, v, g'') \<in> set (rmatch r1 (p, s, g))
        \<and> x \<in> set (rmatch r (q, v, (n, u) # g''))"
  then obtain q u v g'' where "s = u @ v" "(q, v, g'') \<in> set (rmatch r1 (p, s, g))"
    "x \<in> set (rmatch r (q, v, (n, u) # g''))" by blast
  then show "x \<in> set (rmatch (Seq (Grp n r1) r) (p, s, g))"
    unfolding mem_seq_grp by (intro exI[of _ q] exI[of _ v] exI[of _ g'']) simp
qed

lemma group_caps:
  "caps m = [(2, t2), (1, t1)] \<Longrightarrow> group m 1 = t1 \<and> group m 2 = t2"
  by (simp add: group_def)

lemma pieces_text: "concat (map piece_text (pieces_from r p s)) = s"
proof (induction r p s rule: pieces_from.induct)
  case (1 r p)
  show ?case
  proof (cases "match_at r p []")
    case None
    then show ?thesis by simp
  next
    case (Some m)
    from match_at_split[OF Some] have "whole m = []" by simp
    with Some show ?thesis by simp
  qed
next
  case (2 r p c cs)
  show ?case
  proof (cases "match_at r p (c # cs)")
    case None
    with 2 show ?thesis by simp
  next
    case (Some m)
    from match_at_split[OF Some] have s: "c # cs = whole m @ after m" .
    show ?thesis
    proof (cases "whole m = []")
      case True
      with 2(2)[OF Some True] Some show ?thesis by simp
    next
      case False
      then have "pieces_from r p (c # cs) =
          Found m # pieces_from r (Some (last (whole m))) (after m)"
        using Some by simp
      then have "concat (map piece_text (pieces_from r p (c # cs))) = whole m @ after m"
        using 2(3)[OF Some False] by simp
      with s show ?thesis by simp
    qed
  qed
qed

lemma sub_from_pieces:
  "sub_from r f p s = concat (map (piece_replaced f) (pieces_from r p s))"
  by (induction r p s rule: pieces_from.induct) (auto split: option.splits)

lemma finditer_from_pieces: "finditer_from r p s = found (pieces_from r p s)"
  by (induction r p s rule: pieces_from.induct) (auto split: option.splits)

lemma found_is_match:
  "Found m \<in> set (pieces_from r p s) \<Longrightarrow> \<exists>q u. match_at r q u = Some m"
  by (induction r p s rule: pieces_from.induct) (auto split: option.splits if_splits)

lemma set_found: "set (found ps) = {m. Found m \<in> set ps}"
  by (induction ps rule: found.induct) auto

section \<open>What the patterns match\<close>

lemma indent_of_eq: "indent_of line = takeWhile is_space line"
proof -
  have "rmatch INDENT_PATTERN (None, line, []) = map (\<lambda>(q, r). (q, r, [])) (star is_space None line)"
    unfolding INDENT_PATTERN_def seqs.simps seq_bol seq_eps by simp
  also have "\<dots> = (\<lambda>(q, r). (q, r, [])) (hd (star is_space None line))
      # tl (map (\<lambda>(q, r). (q, r, [])) (star is_space None line))"
    by (cases "star is_space None line") simp_all
  finally show ?thesis
    by (simp add: indent_of_def re_match_def match_at_def star_hd take_length_dropWhile)
qed

lemma pointer_tail4:
  "rmatch (Seq (Star is_space) (Seq (Grp 2 (Plus is_word)) Eps)) (p, s, g) =
     rmatch (Grp 2 (Plus is_word)) (prev_after p (takeWhile is_space s), dropWhile is_space s, g)"
proof -
  have det: "\<And>q c v. is_space c \<Longrightarrow> rmatch (Seq (Grp 2 (Plus is_word)) Eps) (q, c # v, g) = []"
    by (simp add: space_not_word)
  show ?thesis
    by (subst seq_star_det[OF det]) (simp_all only: seq_eps)
qed

lemma pointer_tail2:
  "rmatch (Seq (Star is_space) (Seq (Lit CHR ''*'')
      (Seq (Star is_space) (Seq (Grp 2 (Plus is_word)) Eps)))) (p, s, g) =
     (case dropWhile is_space s of
        [] \<Rightarrow> []
      | c # r3 \<Rightarrow>
          if c = CHR ''*''
          then rmatch (Grp 2 (Plus is_word))
                 (prev_after (Some c) (takeWhile is_space r3), dropWhile is_space r3, g)
          else [])"
proof -
  have det: "\<And>q c v. is_space c \<Longrightarrow>
      rmatch (Seq (Lit CHR ''*'') (Seq (Star is_space) (Seq (Grp 2 (Plus is_word)) Eps)))
        (q, c # v, g) = []"
    by (subst seq_lit) auto
  have "rmatch (Seq (Star is_space) (Seq (Lit CHR ''*'')
      (Seq (Star is_space) (Seq (Grp 2 (Plus is_word)) Eps)))) (p, s, g) =
     rmatch (Seq (Lit CHR ''*'') (Seq (Star is_space) (Seq (Grp 2 (Plus is_word)) Eps)))
       (prev_after p (takeWhile is_space s), dropWhile is_space s, g)"
    by (rule seq_star_det[OF det])
  also have "\<dots> = (case dropWhile is_space s of
        [] \<Rightarrow> []
      | c # r3 \<Rightarrow>
          if c = CHR ''*''
          then rmatch (Grp 2 (Plus is_word))
                 (prev_after (Some c) (takeWhile is_space r3), dropWhile is_space r3, g)
          else [])"
    unfolding seq_lit pointer_tail4 ..
  finally show ?thesis .
qed

lemma pointer_tail1:
  "rmatch (Seq (Grp 1 (Plus is_word)) (Seq (Star is_space) (Seq (Lit CHR ''*'')
      (Seq (Star is_space) (Seq (Grp 2 (Plus is_word)) Eps))))) (p, s, g) =
     (if takeWhile is_word s = [] then []
      else case dropWhile is_space (dropWhile is_word s) of
        [] \<Rightarrow> []
      | c # r3 \<Rightarrow>
          if c = CHR ''*''
          then rmatch (Grp 2 (Plus is_word))
                 (prev_after (Some c) (takeWhile is_space r3), dropWhile is_space r3,
                  (1, takeWhile is_word s) # g)
          else [])"
proof -
  have det: "\<And>q c v g'. is_word c \<Longrightarrow>
      rmatch (Seq (Star is_space) (Seq (Lit CHR ''*'')
        (Seq (Star is_space) (Seq (Grp 2 (Plus is_word)) Eps)))) (q, c # v, g') = []"
    by (subst pointer_tail2) (auto simp: word_not_space)
  have "rmatch (Seq (Grp 1 (Plus is_word)) (Seq (Star is_space) (Seq (Lit CHR ''*'')
      (Seq (Star is_space) (Seq (Grp 2 (Plus is_word)) Eps))))) (p, s, g) =
     (if takeWhile is_word s = [] then []
      else rmatch (Seq (Star is_space) (Seq (Lit CHR ''*'')
        (Seq (Star is_space) (Seq (Grp 2 (Plus is_word)) Eps))))
        (prev_after p (takeWhile is_word s), dropWhile is_word s, (1, takeWhile is_word s) # g))"
    by (rule seq_grp_plus_det[OF det])
  then show ?thesis unfolding pointer_tail2 .
qed

lemma pointer_unfold:
  "rmatch POINTER_SPACING_PATTERN (p, s, g) =
     (if word_before p \<noteq> word_at s
      then rmatch (Seq (Grp 1 (Plus is_word)) (Seq (Star is_space) (Seq (Lit CHR ''*'')
             (Seq (Star is_space) (Seq (Grp 2 (Plus is_word)) Eps))))) (p, s, g)
      else [])"
  unfolding POINTER_SPACING_PATTERN_def seqs.simps by (rule seq_wordb)

lemma match_at_pointer:
  "match_at POINTER_SPACING_PATTERN p s =
     (if word_before p then None
      else case ptr_split s of
        None \<Rightarrow> None
      | Some (w1, w2, rest) \<Rightarrow>
          Some \<lparr>whole = take (length s - length rest) s, caps = [(2, w2), (1, w1)], after = rest\<rparr>)"
proof -
  have w: "word_at s = (takeWhile is_word s \<noteq> [])"
    by (cases s) (auto simp: word_at_def)
  show ?thesis
  proof (cases "word_before p \<or> ptr_split s = None")
    case True
    have "rmatch POINTER_SPACING_PATTERN (p, s, []) = []"
    proof (cases "word_before p")
      case True
      then show ?thesis
        unfolding pointer_unfold pointer_tail1 by (simp add: w del: rmatch.simps)
    next
      case False
      with True have n: "ptr_split s = None" by simp
      show ?thesis
      proof (cases "dropWhile is_space (dropWhile is_word s)")
        case Nil
        show ?thesis
          unfolding pointer_unfold pointer_tail1 Nil by (simp del: rmatch.simps)
      next
        case (Cons c r3)
        with n have "takeWhile is_word s = [] \<or> c \<noteq> CHR ''*''
            \<or> takeWhile is_word (dropWhile is_space r3) = []"
          by (auto simp: ptr_split_def split: if_splits)
        then show ?thesis
          unfolding pointer_unfold pointer_tail1 Cons by (auto simp: grp_plus_nil simp del: rmatch.simps)
      qed
    qed
    with True show ?thesis by (auto simp: match_at_def)
  next
    case False
    then obtain w1 w2 rest where sp: "ptr_split s = Some (w1, w2, rest)" by auto
    then obtain r3 where r3: "dropWhile is_space (dropWhile is_word s) = CHR ''*'' # r3"
      and w1: "w1 = takeWhile is_word s" "w1 \<noteq> []"
      and w2: "w2 = takeWhile is_word (dropWhile is_space r3)" "w2 \<noteq> []"
      and rest: "rest = dropWhile is_word (dropWhile is_space r3)"
      by (auto simp: ptr_split_def split: list.splits if_splits)
    have "rmatch POINTER_SPACING_PATTERN (p, s, []) =
        rmatch (Grp 2 (Plus is_word))
                 (prev_after (Some CHR ''*'') (takeWhile is_space r3), dropWhile is_space r3,
                  [(1, w1)])"
      unfolding pointer_unfold pointer_tail1 using False w w1 r3 by simp
    also have "\<dots> = (prev_after (prev_after (Some CHR ''*'') (takeWhile is_space r3)) w2, rest,
       [(2, w2), (1, w1)]) # tl (rmatch (Grp 2 (Plus is_word))
                 (prev_after (Some CHR ''*'') (takeWhile is_space r3), dropWhile is_space r3,
                  [(1, w1)]))"
      using w2 rest by (subst grp_plus_hd) simp
    finally show ?thesis using False sp by (simp add: match_at_def)
  qed
qed

lemma ptr_split_Nil [simp]: "ptr_split [] = None"
  by (simp add: ptr_split_def)

lemma ptr_split_shape:
  assumes "ptr_split s = Some (w1, w2, rest)"
  shows "\<exists>sp1 sp2. s = w1 @ sp1 @ ''*'' @ sp2 @ w2 @ rest
           \<and> (\<forall>c \<in> set sp1. is_space c) \<and> (\<forall>c \<in> set sp2. is_space c)"
    and "w1 \<noteq> []" and "w2 \<noteq> []"
    and "\<forall>c \<in> set w1. is_word c" and "\<forall>c \<in> set w2. is_word c"
    and "\<not> word_at rest"
proof -
  from assms obtain r3 where r3: "dropWhile is_space (dropWhile is_word s) = CHR ''*'' # r3"
    and w1: "w1 = takeWhile is_word s" "w1 \<noteq> []"
    and w2: "w2 = takeWhile is_word (dropWhile is_space r3)" "w2 \<noteq> []"
    and rest: "rest = dropWhile is_word (dropWhile is_space r3)"
    by (auto simp: ptr_split_def split: list.splits if_splits)
  have "s = takeWhile is_word s @ takeWhile is_space (dropWhile is_word s)
          @ dropWhile is_space (dropWhile is_word s)"
    by simp
  also have "dropWhile is_space (dropWhile is_word s)
      = ''*'' @ takeWhile is_space r3 @ takeWhile is_word (dropWhile is_space r3)
        @ dropWhile is_word (dropWhile is_space r3)"
    using r3 by simp
  finally have "s = w1 @ takeWhile is_space (dropWhile is_word s) @ ''*'' @ takeWhile is_space r3
      @ w2 @ rest"
    using w1 w2 rest by simp
  moreover have "\<forall>c \<in> set (takeWhile is_space (dropWhile is_word s)). is_space c"
    "\<forall>c \<in> set (takeWhile is_space r3). is_space c"
    by (auto dest: set_takeWhileD)
  ultimately show "\<exists>sp1 sp2. s = w1 @ sp1 @ ''*'' @ sp2 @ w2 @ rest
           \<and> (\<forall>c \<in> set sp1. is_space c) \<and> (\<forall>c \<in> set sp2. is_space c)"
    by blast
  show "w1 \<noteq> []" "w2 \<noteq> []" by fact+
  show "\<forall>c \<in> set w1. is_word c" "\<forall>c \<in> set w2. is_word c"
    using w1 w2 by (auto dest: set_takeWhileD)
  show "\<not> word_at rest"
    unfolding rest by simp
qed

lemma ptr_split_whole:
  assumes "ptr_split s = Some (w1, w2, rest)"
  shows "\<exists>u. take (length s - length rest) s = u @ w2 \<and> s = u @ w2 @ rest"
proof -
  from ptr_split_shape(1)[OF assms] obtain sp1 sp2 where
    "s = (w1 @ sp1 @ ''*'' @ sp2) @ w2 @ rest" by auto
  then show ?thesis by (intro exI[of _ "w1 @ sp1 @ ''*'' @ sp2"]) simp
qed

lemma ptr_split_length: "ptr_split s = Some (w1, w2, rest) \<Longrightarrow> length rest < length s"
proof -
  assume "ptr_split s = Some (w1, w2, rest)"
  from ptr_split_shape(1)[OF this] obtain sp1 sp2 where
    "s = w1 @ sp1 @ ''*'' @ sp2 @ w2 @ rest" by blast
  then have "length s = length (w1 @ sp1 @ ''*'' @ sp2 @ w2 @ rest)" by (rule arg_cong)
  then show ?thesis by simp
qed

lemma ptr_split_head: "ptr_split (c # cs) = Some (w1, w2, rest) \<Longrightarrow> \<exists>t. w1 = c # t"
  by (auto simp: ptr_split_def split: if_splits list.splits)

lemma ptr_split_not_word: "\<not> is_word c \<Longrightarrow> ptr_split (c # cs) = None"
  by (simp add: ptr_split_def)

lemma ptr_split_iff:
  "(ptr_split s \<noteq> None) = (takeWhile is_word s \<noteq> [] \<and> after_word (dropWhile is_word s))"
proof (cases "dropWhile is_space (dropWhile is_word s)")
  case Nil
  show ?thesis unfolding ptr_split_def after_word_def Nil by simp
next
  case (Cons c r3)
  show ?thesis unfolding ptr_split_def after_word_def after_star_def Cons
    by (simp add: takeWhile_word_at_iff)
qed

lemma ptr_split_normal:
  assumes "w1 \<noteq> []" "\<forall>c \<in> set w1. is_word c" "w2 \<noteq> []" "\<forall>c \<in> set w2. is_word c"
    and "\<not> word_at z"
  shows "ptr_split (w1 @ '' *'' @ w2 @ z) = Some (w1, w2, z)"
proof -
  have a: "takeWhile is_word (w1 @ '' *'' @ w2 @ z) = w1"
     "dropWhile is_word (w1 @ '' *'' @ w2 @ z) = '' *'' @ w2 @ z"
    using assms(2) by (simp_all add: takeWhile_append dropWhile_append)
  obtain d w2' where w2: "w2 = d # w2'" using assms(3) by (cases w2) auto
  with assms(4) have d: "is_word d" "\<not> is_space d" by (auto simp: word_not_space)
  have b: "dropWhile is_space (w2 @ z) = w2 @ z" using w2 d by simp
  have c: "takeWhile is_word (w2 @ z) = w2 \<and> dropWhile is_word (w2 @ z) = z"
    using takeWhile_word_at[OF assms(5) assms(4)] .
  show ?thesis
    unfolding ptr_split_def a using assms(1,3) b c by simp
qed

lemma pointer_match_text:
  assumes "match_at POINTER_SPACING_PATTERN q u = Some m"
  shows "\<exists>sp1 sp2. whole m = group m 1 @ sp1 @ ''*'' @ sp2 @ group m 2
           \<and> (\<forall>c \<in> set sp1. is_space c) \<and> (\<forall>c \<in> set sp2. is_space c)
           \<and> group m 1 \<noteq> [] \<and> group m 2 \<noteq> []
           \<and> (\<forall>c \<in> set (group m 1). is_word c) \<and> (\<forall>c \<in> set (group m 2). is_word c)"
proof -
  from assms obtain w1 w2 rest where sp: "ptr_split u = Some (w1, w2, rest)"
    and m: "m = \<lparr>whole = take (length u - length rest) u, caps = [(2, w2), (1, w1)], after = rest\<rparr>"
    by (auto simp: match_at_pointer split: if_splits option.splits)
  from m have g: "group m 1 = w1" "group m 2 = w2" by (simp_all add: group_def)
  from ptr_split_shape[OF sp] obtain sp1 sp2 where
    u: "u = (w1 @ sp1 @ ''*'' @ sp2 @ w2) @ rest"
    and s: "\<forall>c \<in> set sp1. is_space c" "\<forall>c \<in> set sp2. is_space c"
    and w: "w1 \<noteq> []" "w2 \<noteq> []" "\<forall>c \<in> set w1. is_word c" "\<forall>c \<in> set w2. is_word c"
    by auto
  from u have "take (length u - length rest) u = w1 @ sp1 @ ''*'' @ sp2 @ w2"
    by (metis take_append_length)
  with m have "whole m = w1 @ sp1 @ ''*'' @ sp2 @ w2" by simp
  with s w show ?thesis unfolding g by blast
qed

lemma brace_same_at:
  assumes "\<forall>c \<in> set ws. is_space c"
  shows "match_at BRACE_ON_SAME_LINE_PATTERN p ('')'' @ ws @ ''{'' @ r) \<noteq> None"
proof -
  have "(Some CHR ''{'', r, []) \<in> set (rmatch BRACE_ON_SAME_LINE_PATTERN (p, '')'' @ ws @ ''{'' @ r, []))"
    unfolding BRACE_ON_SAME_LINE_PATTERN_def seqs.simps
    using assms by (simp add: mem_rules del: rmatch.simps)
  then show ?thesis unfolding match_at_ex by blast
qed

lemma brace_same_iff:
  "matches BRACE_ON_SAME_LINE_PATTERN s =
     (\<exists>u ws r. s = u @ '')'' @ ws @ ''{'' @ r \<and> (\<forall>c \<in> set ws. is_space c))"
proof
  assume "matches BRACE_ON_SAME_LINE_PATTERN s"
  then obtain u v where uv: "s = u @ v"
    "match_at BRACE_ON_SAME_LINE_PATTERN (prev_after None u) v \<noteq> None"
    unfolding matches_def re_search_def search_from_iff by blast
  from uv(2) obtain q s' g' where
    "(q, s', g') \<in> set (rmatch BRACE_ON_SAME_LINE_PATTERN (prev_after None u, v, []))"
    unfolding match_at_ex by (metis prod_cases3)
  then obtain ws where "v = '')'' @ ws @ ''{'' @ s'" "\<forall>c \<in> set ws. is_space c"
    unfolding BRACE_ON_SAME_LINE_PATTERN_def seqs.simps
    by (simp add: mem_rules del: rmatch.simps) blast
  with uv(1) show "\<exists>u ws r. s = u @ '')'' @ ws @ ''{'' @ r \<and> (\<forall>c \<in> set ws. is_space c)"
    by blast
next
  assume "\<exists>u ws r. s = u @ '')'' @ ws @ ''{'' @ r \<and> (\<forall>c \<in> set ws. is_space c)"
  then obtain u ws r where h: "s = u @ ('')'' @ ws @ ''{'' @ r)" "\<forall>c \<in> set ws. is_space c"
    by auto
  from brace_same_at[OF h(2)] h(1) show "matches BRACE_ON_SAME_LINE_PATTERN s"
    unfolding matches_def re_search_def search_from_iff by blast
qed

lemma else_text_mem:
  assumes "(q, v, g') \<in> set (rmatch
      (seqs [lits ''else'', Opt (lits '' if''), Wordb, Star not_lbrace]) (p, s, g))"
  shows "\<exists>t3. s = ''else'' @ t3 @ v \<and> CHR ''{'' \<notin> set t3 \<and> g' = g"
proof -
  from assms consider
    (a) uc where "s = ''else if'' @ uc @ v" "\<forall>c \<in> set uc. not_lbrace c" "g' = g"
    | (b) uc where "s = ''else'' @ uc @ v" "\<forall>c \<in> set uc. not_lbrace c" "g' = g"
    unfolding lits_def seqs.simps list.map
    by (simp add: mem_rules del: rmatch.simps) (elim disjE exE conjE; simp)
  then show ?thesis
  proof cases
    case a
    then show ?thesis by (intro exI[of _ "'' if'' @ uc"]) (auto simp: not_lbrace_def)
  next
    case b
    then show ?thesis by (intro exI[of _ uc]) (auto simp: not_lbrace_def)
  qed
qed

lemma else_brace_mem:
  assumes "(q, s', g') \<in> set (rmatch ELSE_BRACE_PATTERN (p, s, []))"
  shows "\<exists>t1 ws1 t3 ws2. s = t1 @ ''}'' @ ws1 @ ''else'' @ t3 @ ws2 @ ''{'' @ s'
           \<and> g' = [(2, ''else'' @ t3), (1, t1)]
           \<and> (\<forall>c \<in> set t1. is_space c) \<and> (\<forall>c \<in> set ws1. is_space c)
           \<and> (\<forall>c \<in> set ws2. is_space c) \<and> CHR ''{'' \<notin> set t3"
proof -
  define inner where "inner = seqs [lits ''else'', Opt (lits '' if''), Wordb, Star not_lbrace]"
  have e: "ELSE_BRACE_PATTERN =
      Seq Bol (Seq (Grp 1 (Star is_space)) (Seq (Lit CHR ''}'') (Seq (Star is_space)
        (Seq (Grp 2 inner) (Seq (Star is_space) (Seq (Lit CHR ''{'') Eps))))))"
    by (simp add: ELSE_BRACE_PATTERN_def inner_def)
  let ?R5 = "Seq (Star is_space) (Seq (Lit CHR ''{'') Eps)"
  let ?R4 = "Seq (Grp 2 inner) ?R5"
  let ?R3 = "Seq (Star is_space) ?R4"
  let ?R2 = "Seq (Lit CHR ''}'') ?R3"
  from assms have 1: "(q, s', g') \<in> set (rmatch (Seq (Grp 1 (Star is_space)) ?R2) (p, s, []))"
    unfolding e mem_seq_bol by blast
  then obtain q1 t1 v1 g1 where s1: "s = t1 @ v1"
    and m1: "(q1, v1, g1) \<in> set (rmatch (Star is_space) (p, s, []))"
    and 2: "(q, s', g') \<in> set (rmatch ?R2 (q1, v1, (1, t1) # g1))"
    unfolding mem_seq_grp_text by blast
  from m1 obtain u1 where "s = u1 @ v1" "\<forall>c \<in> set u1. is_space c" "g1 = []"
    unfolding mem_star by blast
  with s1 have t1: "\<forall>c \<in> set t1. is_space c" "g1 = []" by simp_all
  from 2 obtain v2 where s2: "v1 = CHR ''}'' # v2"
    and 3: "(q, s', g') \<in> set (rmatch ?R3 (Some CHR ''}'', v2, (1, t1) # g1))"
    unfolding mem_seq_lit by blast
  from 3 obtain ws1 v3 where s3: "v2 = ws1 @ v3" "\<forall>c \<in> set ws1. is_space c"
    and 4: "(q, s', g') \<in> set (rmatch ?R4 (prev_after (Some CHR ''}'') ws1, v3, (1, t1) # g1))"
    unfolding mem_seq_star by blast
  from 4 obtain q2 u v4 g2 where s4: "v3 = u @ v4"
    and i0: "(q2, v4, g2) \<in> set (rmatch inner (prev_after (Some CHR ''}'') ws1, v3, (1, t1) # g1))"
    and 5: "(q, s', g') \<in> set (rmatch ?R5 (q2, v4, (2, u) # g2))"
    unfolding mem_seq_grp_text by blast
  from 5 obtain ws2 v5 where s5: "v4 = ws2 @ v5" "\<forall>c \<in> set ws2. is_space c"
    and 6: "(q, s', g') \<in> set (rmatch (Seq (Lit CHR ''{'') Eps) (prev_after q2 ws2, v5, (2, u) # g2))"
    unfolding mem_seq_star by blast
  from 6 have s6: "v5 = CHR ''{'' # s'" and g: "g' = (2, u) # g2"
    unfolding mem_seq_lit mem_eps by auto
  have s: "s = t1 @ ''}'' @ ws1 @ u @ ws2 @ ''{'' @ s'"
    using s1 s2 s3 s4 s5 s6 by simp
  have sp: "\<forall>c \<in> set t1. is_space c" "\<forall>c \<in> set ws1. is_space c" "\<forall>c \<in> set ws2. is_space c"
    by fact+
  define p2 where "p2 = prev_after (Some CHR ''}'') ws1"
  have i: "(q2, ws2 @ ''{'' @ s', g2) \<in> set (rmatch inner (p2, u @ ws2 @ ''{'' @ s', [(1, t1)]))"
    using i0 s4 s5 s6 t1 by (simp add: p2_def)
  from else_text_mem[OF i[unfolded inner_def]] obtain t3 where
    t3: "u @ ws2 @ ''{'' @ s' = ''else'' @ t3 @ ws2 @ ''{'' @ s'" "CHR ''{'' \<notin> set t3" "g2 = [(1, t1)]"
    by blast
  from t3(1) have "u @ (ws2 @ ''{'' @ s') = (''else'' @ t3) @ (ws2 @ ''{'' @ s')" by simp
  then have "u = ''else'' @ t3" by (simp only: append_same_eq)
  with s sp g t3 show ?thesis by blast
qed

lemma else_match_shape:
  assumes "re_match ELSE_BRACE_PATTERN line = Some m"
  shows "\<exists>ws1 t3 ws2. line = group m 1 @ ''}'' @ ws1 @ group m 2 @ ws2 @ ''{'' @ after m
           \<and> group m 2 = ''else'' @ t3 \<and> CHR ''{'' \<notin> set t3
           \<and> (\<forall>c \<in> set (group m 1). is_space c) \<and> (\<forall>c \<in> set ws1. is_space c)
           \<and> (\<forall>c \<in> set ws2. is_space c)"
proof -
  from assms match_at_mem[of ELSE_BRACE_PATTERN None line m] obtain q where
    "(q, after m, caps m) \<in> set (rmatch ELSE_BRACE_PATTERN (None, line, []))"
    by (auto simp: re_match_def)
  from else_brace_mem[OF this] obtain t1 ws1 t3 ws2 where
    h: "line = t1 @ ''}'' @ ws1 @ ''else'' @ t3 @ ws2 @ ''{'' @ after m"
      "caps m = [(2, ''else'' @ t3), (1, t1)]"
      "\<forall>c \<in> set t1. is_space c" "\<forall>c \<in> set ws1. is_space c"
      "\<forall>c \<in> set ws2. is_space c" "CHR ''{'' \<notin> set t3"
    by blast
  from group_caps[OF h(2)] have g: "group m 1 = t1" "group m 2 = ''else'' @ t3" by simp_all
  show ?thesis
    unfolding g using h by (intro exI[of _ ws1] exI[of _ t3] exI[of _ ws2]) simp
qed

lemma function_brace_mem:
  assumes "(q, s', g') \<in> set (rmatch FUNCTION_BRACE_PATTERN (p, s, []))"
  shows "\<exists>a ws1 ws2 t2. s = a @ '')'' @ ws1 @ ''{'' @ ws2 @ t2 @ s'
           \<and> g' = [(2, t2), (1, a @ '')'')]
           \<and> (\<forall>c \<in> set ws1. is_space c) \<and> (\<forall>c \<in> set ws2. is_space c)
           \<and> (\<forall>c \<in> set a. is_dot c) \<and> (\<forall>c \<in> set t2. is_dot c)"
  using assms unfolding FUNCTION_BRACE_PATTERN_def seqs.simps
  by (simp add: mem_rules del: rmatch.simps) (clarsimp, blast)

lemma function_search_shape:
  assumes "re_search FUNCTION_BRACE_PATTERN line = Some m"
  shows "\<exists>skipped a ws1 ws2. line = skipped @ group m 1 @ ws1 @ ''{'' @ ws2 @ group m 2 @ after m
           \<and> group m 1 = a @ '')''
           \<and> (\<forall>c \<in> set ws1. is_space c) \<and> (\<forall>c \<in> set ws2. is_space c)
           \<and> (\<forall>c \<in> set a. is_dot c) \<and> (\<forall>c \<in> set (group m 2). is_dot c)"
proof -
  from assms search_from_Some[of FUNCTION_BRACE_PATTERN None line m] obtain u v where
    uv: "line = u @ v" "match_at FUNCTION_BRACE_PATTERN (prev_after None u) v = Some m"
    by (auto simp: re_search_def)
  from match_at_mem[OF uv(2)] obtain q where
    "(q, after m, caps m) \<in> set (rmatch FUNCTION_BRACE_PATTERN (prev_after None u, v, []))"
    by blast
  from function_brace_mem[OF this] obtain a ws1 ws2 t2 where
    h: "v = a @ '')'' @ ws1 @ ''{'' @ ws2 @ t2 @ after m"
      "caps m = [(2, t2), (1, a @ '')'')]"
      "\<forall>c \<in> set ws1. is_space c" "\<forall>c \<in> set ws2. is_space c"
      "\<forall>c \<in> set a. is_dot c" "\<forall>c \<in> set t2. is_dot c"
    by blast
  from group_caps[OF h(2)] have g: "group m 1 = a @ '')''" "group m 2 = t2" by simp_all
  show ?thesis
    unfolding g using h uv(1) by (intro exI[of _ u] exI[of _ a] exI[of _ ws1] exI[of _ ws2]) simp
qed

lemma function_needs_brace_same:
  assumes "re_search FUNCTION_BRACE_PATTERN line = Some m"
  shows "matches BRACE_ON_SAME_LINE_PATTERN line"
proof -
  from function_search_shape[OF assms] obtain skipped a ws1 ws2 where
    "line = skipped @ group m 1 @ ws1 @ ''{'' @ ws2 @ group m 2 @ after m"
    "group m 1 = a @ '')''" "\<forall>c \<in> set ws1. is_space c"
    by blast
  then have "line = (skipped @ a) @ '')'' @ ws1 @ ''{'' @ (ws2 @ group m 2 @ after m)"
    "\<forall>c \<in> set ws1. is_space c" by simp_all
  then show ?thesis unfolding brace_same_iff by blast
qed

lemma function_brace_unfold:
  "rmatch FUNCTION_BRACE_PATTERN (p, s, []) = concat (map (after_prefix s) (star is_dot p s))"
proof -
  let ?cap = "\<lambda>(q, s', g'). (q, s', (1, take (length s - length s') s) # g')"
  let ?h = "\<lambda>(q, r). (q, r, [])"
  have a: "concat (map (rmatch brace_tail)
          (map ?cap (concat (map (rmatch (Seq (Lit CHR '')'') Eps)) (map ?h xs)))))
        = concat (map (after_prefix s) xs)" for xs
    by (induction xs) (auto simp: after_prefix_def split: list.splits)
  have "rmatch FUNCTION_BRACE_PATTERN (p, s, []) =
      concat (map (rmatch brace_tail)
          (map ?cap (concat (map (rmatch (Seq (Lit CHR '')'') Eps)) (map ?h (star is_dot p s))))))"
    by (simp only: FUNCTION_BRACE_PATTERN_def brace_tail_def seqs.simps rmatch.simps)
  with a show ?thesis by simp
qed

lemma brace_tail_hd:
  assumes "\<forall>c \<in> set ws. is_space c"
  shows "rmatch brace_tail (p, ws @ ''{'' @ r, g) \<noteq> [] \<and>
         (\<exists>q. hd (rmatch brace_tail (p, ws @ ''{'' @ r, g)) =
            (q, dropWhile is_dot (dropWhile is_space r),
             (2, takeWhile is_dot (dropWhile is_space r)) # g))"
proof -
  let ?t2 = "Seq (Star is_space) (Seq (Grp 2 (Star is_dot)) Eps)"
  have det: "\<And>q c v. is_space c \<Longrightarrow> rmatch (Seq (Lit CHR ''{'') ?t2) (q, c # v, g) = []"
    unfolding seq_lit by auto
  have d: "dropWhile is_space (ws @ ''{'' @ r) = ''{'' @ r"
    using assms by (simp add: dropWhile_append)
  have "rmatch brace_tail (p, ws @ ''{'' @ r, g) =
      rmatch (Seq (Lit CHR ''{'') ?t2)
        (prev_after p (takeWhile is_space (ws @ ''{'' @ r)), dropWhile is_space (ws @ ''{'' @ r), g)"
    unfolding brace_tail_def seqs.simps by (rule seq_star_det[OF det])
  also have "\<dots> = rmatch ?t2 (Some CHR ''{'', r, g)"
    unfolding d seq_lit by simp
  also have "\<dots> = concat (map (\<lambda>(q, v). rmatch (Grp 2 (Star is_dot)) (q, v, g))
      (star is_space (Some CHR ''{'') r))"
    unfolding seq_eps by (simp add: comp_def case_prod_unfold)
  finally have e: "rmatch brace_tail (p, ws @ ''{'' @ r, g) =
      concat (map (\<lambda>(q, v). rmatch (Grp 2 (Star is_dot)) (q, v, g))
        (star is_space (Some CHR ''{'') r))" .
  let ?f = "\<lambda>(q, v). rmatch (Grp 2 (Star is_dot)) (q, v, g)"
  let ?q = "prev_after (Some CHR ''{'') (takeWhile is_space r)"
  have h: "?f (hd (star is_space (Some CHR ''{'') r))
      = rmatch (Grp 2 (Star is_dot)) (?q, dropWhile is_space r, g)"
    by (simp add: star_hd)
  from grp_star_hd[of 2 is_dot ?q "dropWhile is_space r" g]
  have ne: "?f (hd (star is_space (Some CHR ''{'') r)) \<noteq> []"
    and hd: "hd (?f (hd (star is_space (Some CHR ''{'') r))) =
       (prev_after ?q (takeWhile is_dot (dropWhile is_space r)),
        dropWhile is_dot (dropWhile is_space r),
        (2, takeWhile is_dot (dropWhile is_space r)) # g)"
    unfolding h by simp_all
  from hd_concat_map[of "star is_space (Some CHR ''{'') r" ?f, OF star_ne ne] hd
  show ?thesis unfolding e by auto
qed

lemma brace_tail_shape:
  assumes "rmatch brace_tail (p, v, g) \<noteq> []"
  shows "\<exists>ws r. v = ws @ ''{'' @ r \<and> (\<forall>c \<in> set ws. is_space c)"
proof -
  from assms obtain q s' g' where "(q, s', g') \<in> set (rmatch brace_tail (p, v, g))"
    by (cases "rmatch brace_tail (p, v, g)") auto
  then show ?thesis
    unfolding brace_tail_def seqs.simps
    by (simp add: mem_rules del: rmatch.simps) blast
qed

lemma split_after_brace:
  assumes "ws @ CHR ''{'' # rest = u @ CHR '')'' # x" and "\<forall>c \<in> set ws. is_space c"
  shows "\<exists>u'. rest = u' @ CHR '')'' # x"
proof -
  from assms(1) obtain z where
    "(ws = u @ z \<and> z @ CHR ''{'' # rest = CHR '')'' # x)
     \<or> (ws @ z = u \<and> CHR ''{'' # rest = z @ CHR '')'' # x)"
    unfolding append_eq_append_conv2 by blast
  then show ?thesis
  proof
    assume a: "ws = u @ z \<and> z @ CHR ''{'' # rest = CHR '')'' # x"
    then have "z \<noteq> []" by auto
    with a obtain z' where "z = CHR '')'' # z'" by (cases z) auto
    with a assms(2) have "is_space CHR '')''" by auto
    then show ?thesis by simp
  next
    assume a: "ws @ z = u \<and> CHR ''{'' # rest = z @ CHR '')'' # x"
    then have "z \<noteq> []" by auto
    with a obtain z' where "z = CHR ''{'' # z'" by (cases z) auto
    with a show ?thesis by auto
  qed
qed

lemma after_prefix_none:
  assumes "\<forall>c \<in> set ws. is_space c" and "\<not> matches BRACE_ON_SAME_LINE_PATTERN rest"
    and "x \<in> set (star is_dot q (ws @ ''{'' @ rest))"
  shows "after_prefix s x = []"
proof (rule ccontr)
  assume ne: "after_prefix s x \<noteq> []"
  obtain q' v where x: "x = (q', v)" by (cases x)
  from ne x obtain v' where v: "v = CHR '')'' # v'"
    and t: "rmatch brace_tail (Some CHR '')'', v', [(1, take (length s - length v') s)]) \<noteq> []"
    by (auto simp: after_prefix_def split: list.splits if_splits)
  from brace_tail_shape[OF t] obtain ws' r where
    r: "v' = ws' @ ''{'' @ r" "\<forall>c \<in> set ws'. is_space c" by blast
  from assms(3) x have "(q', v) \<in> set (star is_dot q (ws @ ''{'' @ rest))" by simp
  then obtain u where "ws @ ''{'' @ rest = u @ v" unfolding star_mem by blast
  with v have "ws @ CHR ''{'' # rest = u @ CHR '')'' # v'" by simp
  from split_after_brace[OF this assms(1)] obtain u' where "rest = u' @ CHR '')'' # v'" by blast
  with r have "rest = u' @ '')'' @ ws' @ ''{'' @ r" by simp
  with r(2) have "matches BRACE_ON_SAME_LINE_PATTERN rest" unfolding brace_same_iff by blast
  with assms(2) show False by simp
qed

lemma function_match_last:
  assumes ws: "\<forall>c \<in> set ws. is_space c" and pre: "CHR 0x0A \<notin> set pre"
    and last: "\<not> matches BRACE_ON_SAME_LINE_PATTERN rest"
  shows "\<exists>m. match_at FUNCTION_BRACE_PATTERN p (pre @ '')'' @ ws @ ''{'' @ rest) = Some m
           \<and> caps m = [(2, takeWhile is_dot (dropWhile is_space rest)), (1, pre @ '')'')]"
proof -
  let ?tail = "ws @ ''{'' @ rest"
  let ?line = "pre @ '')'' @ ?tail"
  let ?g = "[(1, take (length ?line - length ?tail) ?line)]"
  have dots: "\<forall>x \<in> set pre. is_dot x" "is_dot CHR '')''"
    using pre by (auto simp: is_dot_def)
  from star_split[OF dots, of p ?tail] obtain later where
    st: "star is_dot p ?line = star is_dot (Some CHR '')'') ?tail
           @ (prev_after p pre, CHR '')'' # ?tail) # later"
    by auto
  have none: "concat (map (after_prefix ?line) (star is_dot (Some CHR '')'') ?tail)) = []"
    using after_prefix_none[OF ws last] by simp
  have here: "after_prefix ?line (prev_after p pre, CHR '')'' # ?tail)
      = rmatch brace_tail (Some CHR '')'', ?tail, [(1, pre @ '')'')])"
    by (simp add: after_prefix_def)
  from brace_tail_hd[OF ws, of "Some CHR '')''" rest "[(1, pre @ '')'')]"]
  obtain q more where
    bt: "rmatch brace_tail (Some CHR '')'', ?tail, [(1, pre @ '')'')]) =
      (q, dropWhile is_dot (dropWhile is_space rest),
        [(2, takeWhile is_dot (dropWhile is_space rest)), (1, pre @ '')'')]) # more"
    by (cases "rmatch brace_tail (Some CHR '')'', ?tail, [(1, pre @ '')'')])") auto
  have "rmatch FUNCTION_BRACE_PATTERN (p, ?line, []) =
      (q, dropWhile is_dot (dropWhile is_space rest),
        [(2, takeWhile is_dot (dropWhile is_space rest)), (1, pre @ '')'')])
      # more @ concat (map (after_prefix ?line) later)"
    unfolding function_brace_unfold st using none here bt by simp
  then show ?thesis by (simp add: match_at_def)
qed

lemma function_brace_at:
  assumes "\<forall>c \<in> set a. is_dot c" and "\<forall>c \<in> set ws. is_space c"
  shows "match_at FUNCTION_BRACE_PATTERN p (a @ '')'' @ ws @ ''{'' @ r) \<noteq> None"
proof -
  let ?tail = "ws @ ''{'' @ r"
  let ?line = "a @ '')'' @ ?tail"
  have "is_dot CHR '')''" by (simp add: is_dot_def)
  from star_split[OF assms(1) this, of p ?tail] obtain later where
    st: "star is_dot p ?line = star is_dot (Some CHR '')'') ?tail
           @ (prev_after p a, CHR '')'' # ?tail) # later"
    by auto
  have "after_prefix ?line (prev_after p a, CHR '')'' # ?tail)
      = rmatch brace_tail (Some CHR '')'', ?tail, [(1, a @ '')'')])"
    by (simp add: after_prefix_def)
  with brace_tail_hd[OF assms(2), of "Some CHR '')''" r "[(1, a @ '')'')]"]
  have "after_prefix ?line (prev_after p a, CHR '')'' # ?tail) \<noteq> []" by simp
  then have "rmatch FUNCTION_BRACE_PATTERN (p, ?line, []) \<noteq> []"
    unfolding function_brace_unfold st by simp
  then show ?thesis by (simp add: match_at_None)
qed

lemma function_search_line:
  assumes "re_search FUNCTION_BRACE_PATTERN line = Some m" and "CHR 0x0A \<notin> set (butlast line)"
  shows "\<exists>ws1 ws2. line = group m 1 @ ws1 @ ''{'' @ ws2 @ group m 2 @ after m
           \<and> (\<forall>c \<in> set ws1. is_space c) \<and> (\<forall>c \<in> set ws2. is_space c)"
proof -
  from assms(1) search_from_leftmost[of FUNCTION_BRACE_PATTERN None line m] obtain u v where
    uv: "line = u @ v" "match_at FUNCTION_BRACE_PATTERN (prev_after None u) v = Some m"
      "u \<noteq> [] \<longrightarrow> match_at FUNCTION_BRACE_PATTERN None line = None"
    by (auto simp: re_search_def)
  from match_at_mem[OF uv(2)] obtain q where
    "(q, after m, caps m) \<in> set (rmatch FUNCTION_BRACE_PATTERN (prev_after None u, v, []))"
    by blast
  from function_brace_mem[OF this] obtain a ws1 ws2 t2 where
    h: "v = a @ '')'' @ ws1 @ ''{'' @ ws2 @ t2 @ after m"
      "caps m = [(2, t2), (1, a @ '')'')]"
      "\<forall>c \<in> set ws1. is_space c" "\<forall>c \<in> set ws2. is_space c"
      "\<forall>c \<in> set a. is_dot c"
    by blast
  from group_caps[OF h(2)] have g: "group m 1 = a @ '')''" "group m 2 = t2" by simp_all
  have l: "line = (u @ a) @ CHR '')'' # (ws1 @ ''{'' @ ws2 @ t2 @ after m)"
    using uv(1) h(1) by simp
  have "\<forall>c \<in> set (u @ a). is_dot c"
  proof
    fix c assume "c \<in> set (u @ a)"
    from in_butlast[OF l this] assms(2) show "is_dot c" by (auto simp: is_dot_def)
  qed
  from function_brace_at[OF this h(3), of None "ws2 @ t2 @ after m"] l
  have "match_at FUNCTION_BRACE_PATTERN None line \<noteq> None" by simp
  with uv(3) have "u = []" by blast
  with uv(1) h g show ?thesis by (intro exI[of _ ws1] exI[of _ ws2]) simp
qed

section \<open>The Pointer-Spacing Normalizer\<close>

lemma repl_pointer:
  "POINTER_SPACING_REPLACEMENT \<lparr>whole = x, caps = [(2, w2), (1, w1)], after = r\<rparr>
     = w1 @ '' *'' @ w2"
  by (simp add: POINTER_SPACING_REPLACEMENT_def group_def)

lemma pnorm_Nil [simp]: "pnorm p [] = []"
  by (simp add: pnorm_def match_at_pointer)

lemma word_before_last: "w \<noteq> [] \<Longrightarrow> \<forall>c \<in> set w. is_word c \<Longrightarrow> word_before (Some (last w))"
  by (simp add: word_before_def)

lemma pnorm_Cons:
  "pnorm p (c # cs) =
     (if word_before p then c # pnorm (Some c) cs
      else case ptr_split (c # cs) of
        None \<Rightarrow> c # pnorm (Some c) cs
      | Some (w1, w2, rest) \<Rightarrow> w1 @ '' *'' @ w2 @ pnorm (Some (last w2)) rest)"
proof (cases "word_before p \<or> ptr_split (c # cs) = None")
  case True
  then show ?thesis by (auto simp: pnorm_def match_at_pointer)
next
  case False
  then obtain w1 w2 rest where sp: "ptr_split (c # cs) = Some (w1, w2, rest)" by auto
  from ptr_split_whole[OF sp] obtain u where
    u: "take (length (c # cs) - length rest) (c # cs) = u @ w2" by blast
  from ptr_split_shape[OF sp] have "w2 \<noteq> []" by simp
  with u have "last (take (length (c # cs) - length rest) (c # cs)) = last w2"
    "take (length (c # cs) - length rest) (c # cs) \<noteq> []" by simp_all
  with False sp show ?thesis
    by (simp add: pnorm_def match_at_pointer POINTER_SPACING_REPLACEMENT_def group_def)
qed

lemma pnorm_prev: "word_before p = word_before q \<Longrightarrow> pnorm p s = pnorm q s"
  by (cases s) (simp_all add: pnorm_Cons)

lemma pnorm_head: "\<exists>t. pnorm p (c # cs) = c # t"
  by (auto simp: pnorm_Cons split: option.splits dest: ptr_split_head)

lemma pnorm_word_at [simp]: "word_at (pnorm p s) = word_at s"
proof (cases s)
  case Nil
  then show ?thesis by simp
next
  case (Cons c cs)
  from pnorm_head[of p c cs] obtain t where "pnorm p (c # cs) = c # t" by blast
  with Cons show ?thesis by (simp add: word_at_def)
qed

lemma pnorm_copy: "\<not> is_word c \<Longrightarrow> pnorm p (c # cs) = c # pnorm (Some c) cs"
  by (simp add: pnorm_Cons ptr_split_not_word)

lemma after_star_pnorm [simp]: "after_star (pnorm p r) = after_star r"
proof (induction r arbitrary: p)
  case Nil
  then show ?case by simp
next
  case (Cons c r)
  show ?case
  proof (cases "is_space c")
    case True
    then show ?thesis using Cons.IH by (simp add: pnorm_copy space_not_word after_star_def)
  next
    case False
    from pnorm_head[of p c r] obtain t where "pnorm p (c # r) = c # t" by blast
    with False show ?thesis by (simp add: after_star_def word_at_def)
  qed
qed

lemma after_word_pnorm [simp]: "after_word (pnorm p r) = after_word r"
proof (induction r arbitrary: p)
  case Nil
  then show ?case by simp
next
  case (Cons c r)
  show ?case
  proof (cases "is_space c")
    case True
    then show ?thesis using Cons.IH by (simp add: pnorm_copy space_not_word after_word_def)
  next
    case False
    show ?thesis
    proof (cases "c = CHR ''*''")
      case True
      then show ?thesis by (simp add: pnorm_copy after_word_def)
    next
      case star: False
      from pnorm_head[of p c r] obtain t where "pnorm p (c # r) = c # t" by blast
      with False star show ?thesis by (simp add: after_word_def)
    qed
  qed
qed

lemma pnorm_word_run:
  "word_before p \<Longrightarrow>
   pnorm p r = takeWhile is_word r @ pnorm (prev_after p (takeWhile is_word r)) (dropWhile is_word r)"
proof (induction r arbitrary: p)
  case Nil
  then show ?case by simp
next
  case (Cons c r)
  show ?case
  proof (cases "is_word c")
    case True
    then have "word_before (Some c)" by (simp add: word_before_def)
    from Cons.IH[OF this] Cons.prems True show ?thesis by (simp add: pnorm_Cons)
  next
    case False
    then show ?thesis by simp
  qed
qed

lemma ptr_split_pnorm:
  "(ptr_split (c # pnorm (Some c) cs) = None) = (ptr_split (c # cs) = None)"
proof (cases "is_word c")
  case False
  then show ?thesis by (simp add: ptr_split_not_word)
next
  case True
  then have wb: "word_before (Some c)" by (simp add: word_before_def)
  let ?q = "prev_after (Some c) (takeWhile is_word cs)"
  have nw: "\<not> word_at (pnorm ?q (dropWhile is_word cs))"
    by simp
  have "takeWhile is_word (pnorm (Some c) cs) = takeWhile is_word cs
      \<and> dropWhile is_word (pnorm (Some c) cs) = pnorm ?q (dropWhile is_word cs)"
    by (subst (1 2) pnorm_word_run[OF wb], rule takeWhile_word_at[OF nw])
       (auto dest: set_takeWhileD)
  with True have "(ptr_split (c # pnorm (Some c) cs) \<noteq> None) = (ptr_split (c # cs) \<noteq> None)"
    unfolding ptr_split_iff by simp
  then show ?thesis by blast
qed

lemma pocc_Nil [simp]: "pocc p [] = []"
  by (simp add: pocc_def match_at_pointer)

lemma pocc_Cons:
  "pocc p (c # cs) =
     (if word_before p then pocc (Some c) cs
      else case ptr_split (c # cs) of
        None \<Rightarrow> pocc (Some c) cs
      | Some (w1, w2, rest) \<Rightarrow>
          (take (length (c # cs) - length rest) (c # cs), w1, w2) # pocc (Some (last w2)) rest)"
proof (cases "word_before p \<or> ptr_split (c # cs) = None")
  case True
  then show ?thesis by (auto simp: pocc_def match_at_pointer)
next
  case False
  then obtain w1 w2 rest where sp: "ptr_split (c # cs) = Some (w1, w2, rest)" by auto
  from ptr_split_whole[OF sp] obtain u where
    u: "take (length (c # cs) - length rest) (c # cs) = u @ w2" by blast
  from ptr_split_shape[OF sp] have "w2 \<noteq> []" by simp
  with u have "last (take (length (c # cs) - length rest) (c # cs)) = last w2"
    "take (length (c # cs) - length rest) (c # cs) \<noteq> []" by simp_all
  with False sp show ?thesis
    by (simp add: pocc_def match_at_pointer occurrence_def group_def)
qed

lemma pocc_prev: "word_before p = word_before q \<Longrightarrow> pocc p s = pocc q s"
  by (cases s) (simp_all add: pocc_Cons)

lemma take_normal: "take (length (w1 @ '' *'' @ w2 @ z) - length z) (w1 @ '' *'' @ w2 @ z) = w1 @ '' *'' @ w2"
  by simp

lemma pnorm_twice:
  "word_before q = word_before p \<Longrightarrow> pnorm q (pnorm p s) = pnorm p s"
proof (induction "length s" arbitrary: s p q rule: less_induct)
  case less
  show ?case
  proof (cases s)
    case Nil
    then show ?thesis by simp
  next
    case (Cons c cs)
    show ?thesis
    proof (cases "word_before p \<or> ptr_split (c # cs) = None")
      case True
      then have a: "pnorm p (c # cs) = c # pnorm (Some c) cs" by (auto simp: pnorm_Cons)
      from True less.prems have "word_before q \<or> ptr_split (c # pnorm (Some c) cs) = None"
        by (auto simp: ptr_split_pnorm)
      then have "pnorm q (c # pnorm (Some c) cs) = c # pnorm (Some c) (pnorm (Some c) cs)"
        by (auto simp: pnorm_Cons)
      also have "pnorm (Some c) (pnorm (Some c) cs) = pnorm (Some c) cs"
        using less.hyps[of cs "Some c" "Some c"] Cons by simp
      finally show ?thesis using Cons a by simp
    next
      case False
      then obtain w1 w2 rest where sp: "ptr_split (c # cs) = Some (w1, w2, rest)" by auto
      note sh = ptr_split_shape[OF sp]
      let ?z = "pnorm (Some (last w2)) rest"
      from False sp have a: "pnorm p (c # cs) = w1 @ '' *'' @ w2 @ ?z" by (simp add: pnorm_Cons)
      have nz: "\<not> word_at ?z" using sh(6) by simp
      from ptr_split_length[OF sp] have "length rest < length s" using Cons by simp
      from less.hyps[OF this, of "Some (last w2)" "Some (last w2)"]
      have ih: "pnorm (Some (last w2)) ?z = ?z" by simp
      obtain d t where w1: "w1 = d # t" using sh(2) by (cases w1) auto
      have "pnorm q (d # t @ '' *'' @ w2 @ ?z) = w1 @ '' *'' @ w2 @ pnorm (Some (last w2)) ?z"
        using False less.prems ptr_split_normal[OF sh(2) sh(4) sh(3) sh(5) nz] w1
        by (subst pnorm_Cons) simp
      with ih a Cons w1 show ?thesis by simp
    qed
  qed
qed

lemma pocc_pnorm:
  "word_before q = word_before p \<Longrightarrow> pocc q (pnorm p s) = map normal (pocc p s)"
proof (induction "length s" arbitrary: s p q rule: less_induct)
  case less
  show ?case
  proof (cases s)
    case Nil
    then show ?thesis by simp
  next
    case (Cons c cs)
    show ?thesis
    proof (cases "word_before p \<or> ptr_split (c # cs) = None")
      case True
      then have a: "pnorm p (c # cs) = c # pnorm (Some c) cs" "pocc p (c # cs) = pocc (Some c) cs"
        by (auto simp: pnorm_Cons pocc_Cons)
      from True less.prems have "word_before q \<or> ptr_split (c # pnorm (Some c) cs) = None"
        by (auto simp: ptr_split_pnorm)
      then have "pocc q (c # pnorm (Some c) cs) = pocc (Some c) (pnorm (Some c) cs)"
        by (auto simp: pocc_Cons)
      also have "\<dots> = map normal (pocc (Some c) cs)"
        using less.hyps[of cs "Some c" "Some c"] Cons by simp
      finally show ?thesis using Cons a by simp
    next
      case False
      then obtain w1 w2 rest where sp: "ptr_split (c # cs) = Some (w1, w2, rest)" by auto
      note sh = ptr_split_shape[OF sp]
      let ?z = "pnorm (Some (last w2)) rest"
      from False sp have a: "pnorm p (c # cs) = w1 @ '' *'' @ w2 @ ?z"
        "pocc p (c # cs) = (take (length (c # cs) - length rest) (c # cs), w1, w2)
           # pocc (Some (last w2)) rest"
        by (simp_all add: pnorm_Cons pocc_Cons)
      have nz: "\<not> word_at ?z" using sh(6) by simp
      from ptr_split_length[OF sp] have "length rest < length s" using Cons by simp
      from less.hyps[OF this, of "Some (last w2)" "Some (last w2)"]
      have ih: "pocc (Some (last w2)) ?z = map normal (pocc (Some (last w2)) rest)" by simp
      obtain d t where w1: "w1 = d # t" using sh(2) by (cases w1) auto
      have "pocc q (d # t @ '' *'' @ w2 @ ?z) = (w1 @ '' *'' @ w2, w1, w2) # pocc (Some (last w2)) ?z"
        using False less.prems ptr_split_normal[OF sh(2) sh(4) sh(3) sh(5) nz] w1
          take_normal[of w1 w2 ?z]
        by (subst pocc_Cons) simp
      with ih a Cons w1 show ?thesis by (simp add: normal_def)
    qed
  qed
qed

lemma pocc_words:
  "(t, w1, w2) \<in> set (pocc p s) \<Longrightarrow>
     w1 \<noteq> [] \<and> w2 \<noteq> [] \<and> (\<forall>c \<in> set w1. is_word c) \<and> (\<forall>c \<in> set w2. is_word c)"
proof (induction "length s" arbitrary: s p rule: less_induct)
  case less
  show ?case
  proof (cases s)
    case Nil
    with less.prems show ?thesis by simp
  next
    case (Cons c cs)
    show ?thesis
    proof (cases "word_before p \<or> ptr_split (c # cs) = None")
      case True
      with less.prems Cons have "(t, w1, w2) \<in> set (pocc (Some c) cs)"
        by (auto simp: pocc_Cons split: if_splits)
      with less.hyps[of cs "Some c"] Cons show ?thesis by simp
    next
      case False
      then obtain v1 v2 rest where sp: "ptr_split (c # cs) = Some (v1, v2, rest)" by auto
      note sh = ptr_split_shape[OF sp]
      from ptr_split_length[OF sp] have l: "length rest < length s" using Cons by simp
      from False sp less.prems Cons
      have "(w1 = v1 \<and> w2 = v2) \<or> (t, w1, w2) \<in> set (pocc (Some (last v2)) rest)"
        by (auto simp: pocc_Cons)
      then show ?thesis using sh less.hyps[OF l, of "Some (last v2)"] by blast
    qed
  qed
qed

lemma fix_pointer_spacing_pnorm: "fix_pointer_spacing line = pnorm None line"
  by (simp add: fix_pointer_spacing_def re_sub_def pnorm_def)

lemma finditer_pocc: "map occurrence (re_finditer POINTER_SPACING_PATTERN line) = pocc None line"
  by (simp add: re_finditer_def pocc_def)

lemma fix_pointer_spacing_clean:
  "\<not> matches POINTER_SPACING_PATTERN line \<Longrightarrow> fix_pointer_spacing line = line"
  by (simp add: matches_def re_search_def fix_pointer_spacing_def re_sub_def sub_from_no_match)

text \<open>
  C3 (amended). The Normalizer is a substitution on the occurrences of the pointer
  pattern that a scan from the left for matches that do not overlap finds. That scan
  cuts the line into these occurrences and the characters between them; the line
  returned is the same pieces in the same order, every character between occurrences
  kept, and every occurrence (a word, white space, the asterisk, white space, a word,
  both words runs of word characters that are not empty) replaced by its first word, one
  space, the asterisk and its second word. The same scan of the line returned finds the
  same occurrences, with the same two words and in the same order, each now in that
  form.
\<close>

theorem C3_normalizer_occurrences:
  "concat (map piece_text (re_pieces POINTER_SPACING_PATTERN line)) = line
   \<and> fix_pointer_spacing line
       = concat (map (piece_replaced word_space_star_word)
           (re_pieces POINTER_SPACING_PATTERN line))
   \<and> re_finditer POINTER_SPACING_PATTERN line = found (re_pieces POINTER_SPACING_PATTERN line)
   \<and> (\<forall>m \<in> set (re_finditer POINTER_SPACING_PATTERN line).
        \<exists>sp1 sp2. whole m = group m 1 @ sp1 @ ''*'' @ sp2 @ group m 2
           \<and> (\<forall>c \<in> set sp1. is_space c) \<and> (\<forall>c \<in> set sp2. is_space c)
           \<and> group m 1 \<noteq> [] \<and> group m 2 \<noteq> []
           \<and> (\<forall>c \<in> set (group m 1). is_word c) \<and> (\<forall>c \<in> set (group m 2). is_word c))
   \<and> map occurrence (re_finditer POINTER_SPACING_PATTERN (fix_pointer_spacing line))
       = map normal (map occurrence (re_finditer POINTER_SPACING_PATTERN line))"
proof (intro conjI ballI)
  show "concat (map piece_text (re_pieces POINTER_SPACING_PATTERN line)) = line"
    by (simp add: re_pieces_def pieces_text)
  have "POINTER_SPACING_REPLACEMENT = word_space_star_word"
    by (rule ext) (simp add: POINTER_SPACING_REPLACEMENT_def word_space_star_word_def)
  then show "fix_pointer_spacing line
       = concat (map (piece_replaced word_space_star_word)
           (re_pieces POINTER_SPACING_PATTERN line))"
    by (simp add: fix_pointer_spacing_def re_sub_def re_pieces_def sub_from_pieces)
  show f: "re_finditer POINTER_SPACING_PATTERN line = found (re_pieces POINTER_SPACING_PATTERN line)"
    by (simp add: re_finditer_def re_pieces_def finditer_from_pieces)
  show "map occurrence (re_finditer POINTER_SPACING_PATTERN (fix_pointer_spacing line))
       = map normal (map occurrence (re_finditer POINTER_SPACING_PATTERN line))"
    unfolding finditer_pocc fix_pointer_spacing_pnorm
    using pocc_pnorm[of None None line] by simp
  fix m assume "m \<in> set (re_finditer POINTER_SPACING_PATTERN line)"
  then have "Found m \<in> set (pieces_from POINTER_SPACING_PATTERN None line)"
    unfolding f by (simp add: set_found re_pieces_def)
  from found_is_match[OF this] obtain q u where
    "match_at POINTER_SPACING_PATTERN q u = Some m" by blast
  from pointer_match_text[OF this]
  show "\<exists>sp1 sp2. whole m = group m 1 @ sp1 @ ''*'' @ sp2 @ group m 2
           \<and> (\<forall>c \<in> set sp1. is_space c) \<and> (\<forall>c \<in> set sp2. is_space c)
           \<and> group m 1 \<noteq> [] \<and> group m 2 \<noteq> []
           \<and> (\<forall>c \<in> set (group m 1). is_word c) \<and> (\<forall>c \<in> set (group m 2). is_word c)" .
qed

theorem C3_normalizer_occurrences_witness:
  "re_pieces POINTER_SPACING_PATTERN ''int*  x, char * y''
     = [Found \<lparr>whole = ''int*  x'', caps = [(2, ''x''), (1, ''int'')], after = '', char * y''\<rparr>,
        Kept CHR '','', Kept CHR '' '',
        Found \<lparr>whole = ''char * y'', caps = [(2, ''y''), (1, ''char'')], after = []\<rparr>]
   \<and> fix_pointer_spacing ''int*  x, char * y'' = ''int *x, char *y''
   \<and> map occurrence (re_finditer POINTER_SPACING_PATTERN (fix_pointer_spacing ''int*  x, char * y''))
     = [(''int *x'', ''int'', ''x''), (''char *y'', ''char'', ''y'')]"
proof -
  have p: "re_pieces POINTER_SPACING_PATTERN ''int*  x, char * y''
     = [Found \<lparr>whole = ''int*  x'', caps = [(2, ''x''), (1, ''int'')], after = '', char * y''\<rparr>,
        Kept CHR '','', Kept CHR '' '',
        Found \<lparr>whole = ''char * y'', caps = [(2, ''y''), (1, ''char'')], after = []\<rparr>]"
    by code_simp
  note c = C3_normalizer_occurrences[of "''int*  x, char * y''"]
  from c have "fix_pointer_spacing ''int*  x, char * y''
       = concat (map (piece_replaced word_space_star_word)
           (re_pieces POINTER_SPACING_PATTERN ''int*  x, char * y''))"
    by blast
  then have a: "fix_pointer_spacing ''int*  x, char * y'' = ''int *x, char *y''"
    unfolding p by (simp add: word_space_star_word_def group_def)
  from c have f: "re_finditer POINTER_SPACING_PATTERN ''int*  x, char * y''
      = found (re_pieces POINTER_SPACING_PATTERN ''int*  x, char * y'')"
    by blast
  from c have "map occurrence (re_finditer POINTER_SPACING_PATTERN
        (fix_pointer_spacing ''int*  x, char * y''))
     = map normal (map occurrence (re_finditer POINTER_SPACING_PATTERN ''int*  x, char * y''))"
    by blast
  then have b: "map occurrence (re_finditer POINTER_SPACING_PATTERN
        (fix_pointer_spacing ''int*  x, char * y''))
     = [(''int *x'', ''int'', ''x''), (''char *y'', ''char'', ''y'')]"
    unfolding f p by (simp add: normal_def occurrence_def group_def)
  from p a b show ?thesis by blast
qed

text \<open>
  The claim as stated fails where occurrences overlap: in \<open>a*b*c\<close> the word \<open>b\<close>
  ends one occurrence and begins another. The returned line is \<open>a *b*c\<close>, and the
  pattern still matches at \<open>b*c\<close>, where no space stands before the asterisk.
\<close>

theorem C3_counterexample:
  "fix_pointer_spacing ''a*b*c'' = ''a *'' @ ''b*c''
   \<and> map_option occurrence (match_at POINTER_SPACING_PATTERN (prev_after None ''a *'') ''b*c'')
       = Some (''b*c'', ''b'', ''c'')"
  by code_simp

text \<open>
  C4. The Normalizer is idempotent: applying it to its own result changes nothing.
\<close>

theorem C4_normalizer_idempotent:
  "fix_pointer_spacing (fix_pointer_spacing line) = fix_pointer_spacing line"
  unfolding fix_pointer_spacing_pnorm by (rule pnorm_twice) simp

theorem C4_normalizer_idempotent_witness:
  "fix_pointer_spacing ''int*  x = a*b*c;'' = ''int *x = a *b*c;''
   \<and> fix_pointer_spacing (fix_pointer_spacing ''int*  x = a*b*c;'')
       = fix_pointer_spacing ''int*  x = a*b*c;''"
proof (rule conjI)
  show "fix_pointer_spacing ''int*  x = a*b*c;'' = ''int *x = a *b*c;''" by code_simp
  show "fix_pointer_spacing (fix_pointer_spacing ''int*  x = a*b*c;'')
       = fix_pointer_spacing ''int*  x = a*b*c;''"
    by (rule C4_normalizer_idempotent)
qed

section \<open>The Brace-Placement Rewriter\<close>

lemma fix_brace_placement_append:
  "fix_brace_placement (xs @ ys) = fix_brace_placement xs @ fix_brace_placement ys"
  by (induction xs) simp_all

lemma fix_brace_placement_at:
  "fix_brace_placement (before @ line # following) =
     fix_brace_placement before @ rewrite_line line @ fix_brace_placement following"
  by (simp add: fix_brace_placement_append)

lemma rewrite_line_else:
  "\<not> lone_brace line \<Longrightarrow> re_match ELSE_BRACE_PATTERN line = Some m \<Longrightarrow>
   rewrite_line line =
     [group m 1 @ ''}'' @ NL, group m 1 @ strip (group m 2) @ NL, group m 1 @ ''{'' @ NL]"
  by (simp add: rewrite_line_def Let_def)

text \<open>
  C5. Wherever it stands in the sequence of lines, a line that is not a lone brace and
  matches the else-shape gives exactly three lines in the result, between what the
  lines before it and the lines after it give. Each of the three starts with the
  indentation the match captured, which is the leading white space of the line: the
  closing brace, the trimmed \<open>else\<close> text (it begins with \<open>else\<close> and holds no
  opening brace), and the opening brace.
\<close>

theorem C5_else_shape:
  assumes "\<not> lone_brace line" and "re_match ELSE_BRACE_PATTERN line = Some m"
  shows "fix_brace_placement (before @ line # following) =
           fix_brace_placement before
           @ [group m 1 @ ''}'' @ NL, group m 1 @ strip (group m 2) @ NL, group m 1 @ ''{'' @ NL]
           @ fix_brace_placement following
         \<and> group m 1 = takeWhile is_space line
         \<and> (\<exists>t3. group m 2 = ''else'' @ t3 \<and> CHR ''{'' \<notin> set t3)
         \<and> (\<exists>ws1 ws2. line = group m 1 @ ''}'' @ ws1 @ group m 2 @ ws2 @ ''{'' @ after m
               \<and> (\<forall>c \<in> set ws1. is_space c) \<and> (\<forall>c \<in> set ws2. is_space c))"
proof -
  from else_match_shape[OF assms(2)] obtain ws1 t3 ws2 where
    h: "line = group m 1 @ ''}'' @ ws1 @ group m 2 @ ws2 @ ''{'' @ after m"
      "group m 2 = ''else'' @ t3" "CHR ''{'' \<notin> set t3"
      "\<forall>c \<in> set (group m 1). is_space c" "\<forall>c \<in> set ws1. is_space c"
      "\<forall>c \<in> set ws2. is_space c"
    by blast
  have "takeWhile is_space (group m 1 @ CHR ''}'' # (ws1 @ group m 2 @ ws2 @ ''{'' @ after m))
      = group m 1"
    by (rule takeWhile_until[OF h(4)]) simp
  with h(1) have i: "group m 1 = takeWhile is_space line" by simp
  have r: "fix_brace_placement (before @ line # following) =
           fix_brace_placement before
           @ [group m 1 @ ''}'' @ NL, group m 1 @ strip (group m 2) @ NL, group m 1 @ ''{'' @ NL]
           @ fix_brace_placement following"
    unfolding fix_brace_placement_at rewrite_line_else[OF assms] ..
  from h(2,3) have t: "\<exists>t3. group m 2 = ''else'' @ t3 \<and> CHR ''{'' \<notin> set t3" by blast
  from h(1,5,6) have d: "\<exists>ws1 ws2. line = group m 1 @ ''}'' @ ws1 @ group m 2 @ ws2 @ ''{'' @ after m
               \<and> (\<forall>c \<in> set ws1. is_space c) \<and> (\<forall>c \<in> set ws2. is_space c)" by blast
  from r i t d show ?thesis by blast
qed

theorem C5_else_shape_witness:
  "\<not> lone_brace (''    } else if (x > 0) {'' @ NL)
   \<and> re_match ELSE_BRACE_PATTERN (''    } else if (x > 0) {'' @ NL)
       = Some \<lparr>whole = ''    } else if (x > 0) {'',
               caps = [(2, ''else if (x > 0) ''), (1, ''    '')], after = NL\<rparr>
   \<and> fix_brace_placement
        [''      x = 1;'' @ NL, ''    } else if (x > 0) {'' @ NL, ''      x = 2;'' @ NL]
       = [''      x = 1;'' @ NL, ''    }'' @ NL, ''    else if (x > 0)'' @ NL, ''    {'' @ NL,
          ''      x = 2;'' @ NL]"
proof -
  let ?m = "\<lparr>whole = ''    } else if (x > 0) {'',
               caps = [(2, ''else if (x > 0) ''), (1, ''    '')], after = NL\<rparr>"
  have a: "\<not> lone_brace (''    } else if (x > 0) {'' @ NL)" by code_simp
  have b: "re_match ELSE_BRACE_PATTERN (''    } else if (x > 0) {'' @ NL) = Some ?m"
    by code_simp
  have c: "group ?m 1 = ''    ''" "strip (group ?m 2) = ''else if (x > 0)''"
    "fix_brace_placement [''      x = 1;'' @ NL] = [''      x = 1;'' @ NL]"
    "fix_brace_placement [''      x = 2;'' @ NL] = [''      x = 2;'' @ NL]"
    by code_simp+
  from C5_else_shape[OF a b, where before = "[''      x = 1;'' @ NL]"
      and following = "[''      x = 2;'' @ NL]"]
  have "fix_brace_placement
          ([''      x = 1;'' @ NL] @ (''    } else if (x > 0) {'' @ NL) # [''      x = 2;'' @ NL]) =
           fix_brace_placement [''      x = 1;'' @ NL]
           @ [group ?m 1 @ ''}'' @ NL, group ?m 1 @ strip (group ?m 2) @ NL, group ?m 1 @ ''{'' @ NL]
           @ fix_brace_placement [''      x = 2;'' @ NL]"
    by (rule conjunct1)
  then have "fix_brace_placement
        [''      x = 1;'' @ NL, ''    } else if (x > 0) {'' @ NL, ''      x = 2;'' @ NL]
       = [''      x = 1;'' @ NL, ''    }'' @ NL, ''    else if (x > 0)'' @ NL, ''    {'' @ NL,
          ''      x = 2;'' @ NL]"
    unfolding c by simp
  with a b show ?thesis by blast
qed

lemma rewrite_line_general:
  "\<not> lone_brace line \<Longrightarrow> re_match ELSE_BRACE_PATTERN line = None \<Longrightarrow>
   re_search FUNCTION_BRACE_PATTERN line = Some m \<Longrightarrow>
   rewrite_line line =
     [group m 1 @ NL, takeWhile is_space line @ ''{'' @ NL]
     @ (if strip (group m 2) = [] then [] else [takeWhile is_space line @ strip (group m 2) @ NL])"
  by (simp add: rewrite_line_def Let_def indent_of_eq)

text \<open>
  C6. Wherever it stands in the sequence of lines, a line that is neither a lone brace
  nor an else-shape and matches the general header shape gives, between what the lines
  before it and the lines after it give: the prefix (the text of the match up to its
  closing parenthesis), then the opening brace behind the leading white space of the
  line, then, exactly when the text after the brace is not empty once trimmed, that
  trimmed text behind the same white space: two lines or three. On a line of a file (no
  line feed but at its end) the prefix is the beginning of the line.
\<close>

theorem C6_general_header:
  assumes "\<not> lone_brace line" and "re_match ELSE_BRACE_PATTERN line = None"
    and "re_search FUNCTION_BRACE_PATTERN line = Some m"
  shows "fix_brace_placement (before @ line # following) =
           fix_brace_placement before
           @ [group m 1 @ NL, takeWhile is_space line @ ''{'' @ NL]
           @ (if strip (group m 2) = [] then []
              else [takeWhile is_space line @ strip (group m 2) @ NL])
           @ fix_brace_placement following
         \<and> length (fix_brace_placement (before @ line # following)) =
             length (fix_brace_placement before) + (if strip (group m 2) = [] then 2 else 3)
             + length (fix_brace_placement following)
         \<and> indent_of line = takeWhile is_space line
         \<and> (\<exists>skipped a ws1 ws2.
               line = skipped @ group m 1 @ ws1 @ ''{'' @ ws2 @ group m 2 @ after m
               \<and> group m 1 = a @ '')''
               \<and> (\<forall>c \<in> set ws1. is_space c) \<and> (\<forall>c \<in> set ws2. is_space c))
         \<and> (CHR 0x0A \<notin> set (butlast line) \<longrightarrow>
              (\<exists>ws1 ws2. line = group m 1 @ ws1 @ ''{'' @ ws2 @ group m 2 @ after m
                 \<and> (\<forall>c \<in> set ws1. is_space c) \<and> (\<forall>c \<in> set ws2. is_space c)))"
proof -
  have r: "fix_brace_placement (before @ line # following) =
           fix_brace_placement before
           @ [group m 1 @ NL, takeWhile is_space line @ ''{'' @ NL]
           @ (if strip (group m 2) = [] then []
              else [takeWhile is_space line @ strip (group m 2) @ NL])
           @ fix_brace_placement following"
    unfolding fix_brace_placement_at rewrite_line_general[OF assms] by simp
  then have l: "length (fix_brace_placement (before @ line # following)) =
             length (fix_brace_placement before) + (if strip (group m 2) = [] then 2 else 3)
             + length (fix_brace_placement following)"
    by simp
  from function_search_shape[OF assms(3)]
  have d: "\<exists>skipped a ws1 ws2.
               line = skipped @ group m 1 @ ws1 @ ''{'' @ ws2 @ group m 2 @ after m
               \<and> group m 1 = a @ '')''
               \<and> (\<forall>c \<in> set ws1. is_space c) \<and> (\<forall>c \<in> set ws2. is_space c)"
    by blast
  from function_search_line[OF assms(3)]
  have b: "CHR 0x0A \<notin> set (butlast line) \<longrightarrow>
              (\<exists>ws1 ws2. line = group m 1 @ ws1 @ ''{'' @ ws2 @ group m 2 @ after m
                 \<and> (\<forall>c \<in> set ws1. is_space c) \<and> (\<forall>c \<in> set ws2. is_space c))"
    by blast
  from r l d b indent_of_eq[of line] show ?thesis by blast
qed

theorem C6_general_header_witness:
  "\<not> lone_brace (''  if (x) { return 1;'' @ NL)
   \<and> re_match ELSE_BRACE_PATTERN (''  if (x) { return 1;'' @ NL) = None
   \<and> fix_brace_placement [''int y;'' @ NL, ''  if (x) { return 1;'' @ NL, ''  }'' @ NL]
       = [''int y;'' @ NL, ''  if (x)'' @ NL, ''  {'' @ NL, ''  return 1;'' @ NL, ''  }'' @ NL]
   \<and> \<not> lone_brace (''int main(void) {'' @ NL)
   \<and> re_match ELSE_BRACE_PATTERN (''int main(void) {'' @ NL) = None
   \<and> fix_brace_placement [''int y;'' @ NL, ''int main(void) {'' @ NL, ''  }'' @ NL]
       = [''int y;'' @ NL, ''int main(void)'' @ NL, ''{'' @ NL, ''  }'' @ NL]"
proof -
  let ?m = "\<lparr>whole = ''  if (x) { return 1;'', caps = [(2, ''return 1;''), (1, ''  if (x)'')],
             after = NL\<rparr>"
  let ?n = "\<lparr>whole = ''int main(void) {'' @ NL, caps = [(2, []), (1, ''int main(void)'')],
             after = []\<rparr>"
  have k: "fix_brace_placement [''int y;'' @ NL] = [''int y;'' @ NL]"
    "fix_brace_placement [''  }'' @ NL] = [''  }'' @ NL]"
    by code_simp+
  have a: "\<not> lone_brace (''  if (x) { return 1;'' @ NL)" by code_simp
  have b: "re_match ELSE_BRACE_PATTERN (''  if (x) { return 1;'' @ NL) = None" by code_simp
  have c: "re_search FUNCTION_BRACE_PATTERN (''  if (x) { return 1;'' @ NL) = Some ?m"
    by code_simp
  have d: "group ?m 1 = ''  if (x)''" "strip (group ?m 2) = ''return 1;''"
    "takeWhile is_space (''  if (x) { return 1;'' @ NL) = ''  ''"
    by code_simp+
  have a': "\<not> lone_brace (''int main(void) {'' @ NL)" by code_simp
  have b': "re_match ELSE_BRACE_PATTERN (''int main(void) {'' @ NL) = None" by code_simp
  have c': "re_search FUNCTION_BRACE_PATTERN (''int main(void) {'' @ NL) = Some ?n"
    by code_simp
  have d': "group ?n 1 = ''int main(void)''" "strip (group ?n 2) = []"
    "takeWhile is_space (''int main(void) {'' @ NL) = []"
    by code_simp+
  from C6_general_header[OF a b c, where before = "[''int y;'' @ NL]"
      and following = "[''  }'' @ NL]"]
  have "fix_brace_placement
          ([''int y;'' @ NL] @ (''  if (x) { return 1;'' @ NL) # [''  }'' @ NL]) =
           fix_brace_placement [''int y;'' @ NL]
           @ [group ?m 1 @ NL, takeWhile is_space (''  if (x) { return 1;'' @ NL) @ ''{'' @ NL]
           @ (if strip (group ?m 2) = [] then []
              else [takeWhile is_space (''  if (x) { return 1;'' @ NL) @ strip (group ?m 2) @ NL])
           @ fix_brace_placement [''  }'' @ NL]"
    by (rule conjunct1)
  then have e: "fix_brace_placement [''int y;'' @ NL, ''  if (x) { return 1;'' @ NL, ''  }'' @ NL]
       = [''int y;'' @ NL, ''  if (x)'' @ NL, ''  {'' @ NL, ''  return 1;'' @ NL, ''  }'' @ NL]"
    unfolding d k by simp
  from C6_general_header[OF a' b' c', where before = "[''int y;'' @ NL]"
      and following = "[''  }'' @ NL]"]
  have "fix_brace_placement
          ([''int y;'' @ NL] @ (''int main(void) {'' @ NL) # [''  }'' @ NL]) =
           fix_brace_placement [''int y;'' @ NL]
           @ [group ?n 1 @ NL, takeWhile is_space (''int main(void) {'' @ NL) @ ''{'' @ NL]
           @ (if strip (group ?n 2) = [] then []
              else [takeWhile is_space (''int main(void) {'' @ NL) @ strip (group ?n 2) @ NL])
           @ fix_brace_placement [''  }'' @ NL]"
    by (rule conjunct1)
  then have e': "fix_brace_placement [''int y;'' @ NL, ''int main(void) {'' @ NL, ''  }'' @ NL]
       = [''int y;'' @ NL, ''int main(void)'' @ NL, ''{'' @ NL, ''  }'' @ NL]"
    unfolding d' k by simp
  from a b e a' b' e' show ?thesis by blast
qed

lemma header_not_lone: "\<not> lone_brace (pre @ '')'' @ r)"
proof
  assume "lone_brace (pre @ '')'' @ r)"
  moreover have "CHR '')'' \<in> set (strip (pre @ '')'' @ r))"
    by (rule strip_keeps) simp_all
  ultimately show False by (auto simp: lone_brace_def)
qed

text \<open>
  C9. Let a line (its text before the brace holds no line feed) be split at an opening
  brace that follows a closing parenthesis, with white space at most in between, and
  let no such brace follow in the rest of the line. If the line is not an else-shape,
  the general rule splits it there, wherever the line stands in the sequence of lines:
  the first line it gives is all the text up to that parenthesis, whatever braces it
  holds, and only this last brace gets a line of its own.
\<close>

theorem C9_last_header_brace:
  assumes "line = pre @ '')'' @ ws @ ''{'' @ rest"
    and "\<forall>c \<in> set ws. is_space c"
    and "CHR 0x0A \<notin> set pre"
    and "\<not> matches BRACE_ON_SAME_LINE_PATTERN rest"
    and "re_match ELSE_BRACE_PATTERN line = None"
  shows "(\<exists>m. re_search FUNCTION_BRACE_PATTERN line = Some m \<and> group m 1 = pre @ '')''
            \<and> group m 2 = takeWhile is_dot (dropWhile is_space rest))
         \<and> fix_brace_placement (before @ line # following) =
             fix_brace_placement before
             @ [pre @ '')'' @ NL, takeWhile is_space line @ ''{'' @ NL]
             @ (if strip (takeWhile is_dot (dropWhile is_space rest)) = [] then []
                else [takeWhile is_space line
                      @ strip (takeWhile is_dot (dropWhile is_space rest)) @ NL])
             @ fix_brace_placement following"
proof -
  from function_match_last[OF assms(2,3,4), of None] obtain m where
    m: "match_at FUNCTION_BRACE_PATTERN None line = Some m"
    and c: "caps m = [(2, takeWhile is_dot (dropWhile is_space rest)), (1, pre @ '')'')]"
    unfolding assms(1) by blast
  from search_from_first[OF m] have s: "re_search FUNCTION_BRACE_PATTERN line = Some m"
    by (simp add: re_search_def)
  from group_caps[OF c] have g: "group m 1 = pre @ '')''"
    "group m 2 = takeWhile is_dot (dropWhile is_space rest)" by simp_all
  have n: "\<not> lone_brace line" unfolding assms(1) by (rule header_not_lone)
  have "fix_brace_placement (before @ line # following) =
             fix_brace_placement before
             @ [pre @ '')'' @ NL, takeWhile is_space line @ ''{'' @ NL]
             @ (if strip (takeWhile is_dot (dropWhile is_space rest)) = [] then []
                else [takeWhile is_space line
                      @ strip (takeWhile is_dot (dropWhile is_space rest)) @ NL])
             @ fix_brace_placement following"
    unfolding fix_brace_placement_at rewrite_line_general[OF n assms(5) s] g by simp
  with g s show ?thesis by blast
qed

theorem C9_last_header_brace_witness:
  "re_match ELSE_BRACE_PATTERN (''  if (a) { if (b) {'' @ NL) = None
   \<and> \<not> matches BRACE_ON_SAME_LINE_PATTERN NL
   \<and> fix_brace_placement [''int y;'' @ NL, ''  if (a) { if (b) {'' @ NL, ''  }'' @ NL]
       = [''int y;'' @ NL, ''  if (a) { if (b)'' @ NL, ''  {'' @ NL, ''  }'' @ NL]"
proof -
  have a: "''  if (a) { if (b) {'' @ NL = ''  if (a) { if (b'' @ '')'' @ '' '' @ ''{'' @ NL"
    by simp
  have b: "\<forall>c \<in> set '' ''. is_space c" by simp
  have c: "CHR 0x0A \<notin> set ''  if (a) { if (b''" by simp
  have d: "\<not> matches BRACE_ON_SAME_LINE_PATTERN NL" by code_simp
  have e: "re_match ELSE_BRACE_PATTERN (''  if (a) { if (b) {'' @ NL) = None" by code_simp
  have f: "takeWhile is_space (''  if (a) { if (b) {'' @ NL) = ''  ''"
    "strip (takeWhile is_dot (dropWhile is_space NL)) = []"
    "fix_brace_placement [''int y;'' @ NL] = [''int y;'' @ NL]"
    "fix_brace_placement [''  }'' @ NL] = [''  }'' @ NL]"
    by code_simp+
  from C9_last_header_brace[OF a b c d e, where before = "[''int y;'' @ NL]"
      and following = "[''  }'' @ NL]"]
  have "fix_brace_placement ([''int y;'' @ NL] @ (''  if (a) { if (b) {'' @ NL) # [''  }'' @ NL]) =
             fix_brace_placement [''int y;'' @ NL]
             @ [''  if (a) { if (b'' @ '')'' @ NL,
                takeWhile is_space (''  if (a) { if (b) {'' @ NL) @ ''{'' @ NL]
             @ (if strip (takeWhile is_dot (dropWhile is_space NL)) = [] then []
                else [takeWhile is_space (''  if (a) { if (b) {'' @ NL)
                      @ strip (takeWhile is_dot (dropWhile is_space NL)) @ NL])
             @ fix_brace_placement [''  }'' @ NL]"
    by (rule conjunct2)
  then have "fix_brace_placement [''int y;'' @ NL, ''  if (a) { if (b) {'' @ NL, ''  }'' @ NL]
       = [''int y;'' @ NL, ''  if (a) { if (b)'' @ NL, ''  {'' @ NL, ''  }'' @ NL]"
    unfolding f by simp
  with d e show ?thesis by blast
qed

lemma rewrite_line_count: "1 \<le> length (rewrite_line line) \<and> length (rewrite_line line) \<le> 3"
  by (simp add: rewrite_line_def Let_def split: option.splits)

lemma fix_brace_placement_grows: "length lines \<le> length (fix_brace_placement lines)"
proof (induction lines)
  case Nil
  then show ?case by simp
next
  case (Cons line lines)
  with rewrite_line_count[of line] show ?case by simp
qed

text \<open>
  C2. The Rewriter gives one to three lines for every line and never fewer lines than
  it was given (the two lemmas above), but it does not keep all the text: in the branch
  for the else-shape the text after the opening brace is dropped, where the branch for
  the general header shape keeps it as a third line. On \<open>} else { x = 1;\<close> the
  statement \<open>x = 1;\<close> is lost.
\<close>

theorem C2_else_trailing_text_dropped:
  "fix_brace_placement [''} else { x = 1;'' @ NL] = [''}'' @ NL, ''else'' @ NL, ''{'' @ NL]
   \<and> filter not_space (concat (fix_brace_placement [''} else { x = 1;'' @ NL])) = ''}else{''
   \<and> filter not_space (''} else { x = 1;'' @ NL) = ''}else{x=1;''
   \<and> fix_brace_placement [''if (x) { x = 1;'' @ NL] = [''if (x)'' @ NL, ''{'' @ NL, ''x = 1;'' @ NL]"
  by code_simp

section \<open>The Line Linter\<close>

lemma lint_from_fst: "d \<in> set (lint_from i lines) \<Longrightarrow> i < fst d \<and> fst d \<le> i + length lines"
  by (induction lines arbitrary: i) (fastforce)+

lemma lint_from_sorted: "sorted (map fst (lint_from i lines))"
proof (induction lines arbitrary: i)
  case Nil
  then show ?case by simp
next
  case (Cons line lines)
  have a: "sorted (map fst (map (Pair (i + 1)) (lint_line line)))"
    by (simp add: comp_def sorted_iff_nth_mono)
  have b: "\<forall>x \<in> set (map fst (map (Pair (i + 1)) (lint_line line))).
           \<forall>y \<in> set (map fst (lint_from (Suc i) lines)). x \<le> y"
    by (auto dest!: lint_from_fst)
  from a b Cons.IH[of "Suc i"] show ?case
    by (simp only: lint_from.simps map_append sorted_append) 
qed

lemma lint_from_at:
  "map snd (filter (\<lambda>d. fst d = n) (lint_from i lines)) =
     (if i < n \<and> n \<le> i + length lines then lint_line (lines ! (n - i - 1)) else [])"
proof (induction lines arbitrary: i)
  case Nil
  then show ?case by auto
next
  case (Cons line lines)
  have here: "map snd (filter (\<lambda>d. fst d = n) (map (Pair (i + 1)) (lint_line line))) =
     (if n = i + 1 then lint_line line else [])"
    by (induction "lint_line line") (auto simp: filter_map comp_def)
  show ?case
  proof (cases "n = i + 1")
    case True
    then show ?thesis using Cons.IH[of "Suc i"] here by simp
  next
    case False
    then have "n - i - 1 = Suc (n - Suc i - 1)" if "i < n" using that by arith
    then show ?thesis using Cons.IH[of "Suc i"] here False by auto
  qed
qed

lemma lint_line_order:
  "subseq (lint_line line)
     [MSG_POINTER_SPACING, MSG_BRACE_NEW_LINE, MSG_OPENING_BRACE_ALONE, MSG_CLOSING_BRACE_ALONE]"
  by (simp add: lint_line_def)

lemma lint_line_fires:
  "(MSG_POINTER_SPACING \<in> set (lint_line line)) = matches POINTER_SPACING_PATTERN line"
  "(MSG_BRACE_NEW_LINE \<in> set (lint_line line)) = matches BRACE_ON_SAME_LINE_PATTERN line"
  "(MSG_OPENING_BRACE_ALONE \<in> set (lint_line line)) = matches OPENING_BRACE_NOT_ALONE_PATTERN line"
  "(MSG_CLOSING_BRACE_ALONE \<in> set (lint_line line)) = matches CLOSING_BRACE_NOT_ALONE_PATTERN line"
  by (simp_all add: lint_line_def)

lemma lint_line_le4: "length (lint_line line) \<le> 4"
  by (simp add: lint_line_def)

text \<open>
  C7. The diagnostics of a file come out in ascending order of their 1-based line
  numbers; the diagnostics of line \<open>n\<close> are those of the four checks on that line; on
  every line the messages that fire (a message fires exactly when its pattern is found)
  come in the fixed order pointer spacing, brace on the line of the closing parenthesis,
  opening brace not alone, closing brace not alone, each at most once, so at most four.
\<close>

theorem C7_lint_order:
  "sorted (map fst (lint_lines lines))
   \<and> (\<forall>n. map snd (filter (\<lambda>d. fst d = n) (lint_lines lines)) =
        (if 1 \<le> n \<and> n \<le> length lines then lint_line (lines ! (n - 1)) else []))
   \<and> (\<forall>line. subseq (lint_line line)
        [MSG_POINTER_SPACING, MSG_BRACE_NEW_LINE, MSG_OPENING_BRACE_ALONE, MSG_CLOSING_BRACE_ALONE]
      \<and> length (lint_line line) \<le> 4
      \<and> (MSG_POINTER_SPACING \<in> set (lint_line line)) = matches POINTER_SPACING_PATTERN line
      \<and> (MSG_BRACE_NEW_LINE \<in> set (lint_line line)) = matches BRACE_ON_SAME_LINE_PATTERN line
      \<and> (MSG_OPENING_BRACE_ALONE \<in> set (lint_line line))
          = matches OPENING_BRACE_NOT_ALONE_PATTERN line
      \<and> (MSG_CLOSING_BRACE_ALONE \<in> set (lint_line line))
          = matches CLOSING_BRACE_NOT_ALONE_PATTERN line)"
  unfolding lint_lines_def
  using lint_from_sorted[of 0 lines] lint_from_at[of _ 0 lines] lint_line_order lint_line_le4
    lint_line_fires
  by (simp add: Suc_le_eq)

theorem C7_lint_order_witness:
  "lint_lines [''a*b) { x } y'' @ NL, ''} else {'' @ NL, ''int *x;'' @ NL] =
     [(1, MSG_POINTER_SPACING), (1, MSG_BRACE_NEW_LINE), (1, MSG_OPENING_BRACE_ALONE),
      (1, MSG_CLOSING_BRACE_ALONE), (3, MSG_POINTER_SPACING)]
   \<and> sorted (map fst (lint_lines [''a*b) { x } y'' @ NL, ''} else {'' @ NL, ''int *x;'' @ NL]))"
proof (rule conjI)
  show "lint_lines [''a*b) { x } y'' @ NL, ''} else {'' @ NL, ''int *x;'' @ NL] =
     [(1, MSG_POINTER_SPACING), (1, MSG_BRACE_NEW_LINE), (1, MSG_OPENING_BRACE_ALONE),
      (1, MSG_CLOSING_BRACE_ALONE), (3, MSG_POINTER_SPACING)]"
    by code_simp
  show "sorted (map fst (lint_lines [''a*b) { x } y'' @ NL, ''} else {'' @ NL, ''int *x;'' @ NL]))"
    using C7_lint_order[of "[''a*b) { x } y'' @ NL, ''} else {'' @ NL, ''int *x;'' @ NL]"]
    by (rule conjunct1)
qed

section \<open>The fix pass on a file the Linter accepts\<close>

lemma rewrite_line_clean:
  assumes "lone_brace line \<or> re_match ELSE_BRACE_PATTERN line = None"
    and "\<not> matches BRACE_ON_SAME_LINE_PATTERN line"
  shows "rewrite_line line = [line]"
proof -
  from assms(2) function_needs_brace_same have "re_search FUNCTION_BRACE_PATTERN line = None"
    by (cases "re_search FUNCTION_BRACE_PATTERN line") auto
  with assms(1) show ?thesis by (auto simp: rewrite_line_def Let_def)
qed

lemma lint_from_Nil: "(lint_from i lines = []) = (\<forall>line \<in> set lines. lint_line line = [])"
  by (induction lines arbitrary: i) auto

lemma lint_line_Nil:
  "lint_line line = [] \<Longrightarrow>
     \<not> matches POINTER_SPACING_PATTERN line \<and> \<not> matches BRACE_ON_SAME_LINE_PATTERN line"
  by (auto simp: lint_line_def split: if_splits)

lemma fix_brace_placement_same:
  "(\<And>line. line \<in> set lines \<Longrightarrow> rewrite_line line = [line]) \<Longrightarrow> fix_brace_placement lines = lines"
  by (induction lines) auto

lemma concat_readlines: "concat (readlines s) = s"
  by (induction s rule: readlines.induct) (auto split: list.splits)

lemma native_round_trip:
  "native_line_ends windows s \<Longrightarrow> to_linesep (linesep windows) (universal_newlines s) = s"
  by (induction windows s rule: native_line_ends.induct)
     (auto simp: to_linesep_def linesep_def split: if_splits)

lemma fix_file_stores:
  "data w f = Some raw \<Longrightarrow> writable w f \<Longrightarrow>
   data (after_run (lint_and_fix_c_file f w)) f
     = Some (to_linesep (linesep (crlf w))
         (writelines (fix_lines (readlines (universal_newlines raw)))))"
  by (simp add: lint_and_fix_c_file_def Let_def open_file_def print_def fix_lines_def)

text \<open>
  C1 (amended). Take a file that can be read and written, whose line ends are those
  that writing gives (\<open>native_line_ends\<close>), on whose lines the Linter reports nothing
  and none of whose lines has the else-shape (a closing brace, \<open>else\<close> and an opening
  brace on one line). The fix pass returns the lines as they are and the Linter still
  reports nothing on them; \<open>lint_and_fix_c_file\<close> leaves the text of every file as
  it was, the text it writes being the text it read; and where the status line can be
  printed, it returns having printed that line only, and the \<open>lint_c_code\<close> that
  follows returns and prints nothing.
\<close>

theorem C1_compliant_unchanged:
  assumes "data w f = Some raw" and "writable w f"
    and "lines = readlines (universal_newlines raw)"
    and "lint_lines lines = []"
    and "\<forall>line \<in> set lines. lone_brace line \<or> re_match ELSE_BRACE_PATTERN line = None"
    and "native_line_ends (crlf w) raw"
  shows "fix_lines lines = lines
     \<and> lint_lines (fix_lines lines) = []
     \<and> data (after_run (lint_and_fix_c_file f w)) = data w
     \<and> (printable w (Complete f) \<longrightarrow>
          lint_and_fix_c_file f w
            = Returns (w\<lparr>out := out w @ [Complete f],
                         opened := opened w @ [(f, ForReading), (f, ForWriting)]\<rparr>)
          \<and> lint_c_code f (w\<lparr>out := out w @ [Complete f],
                         opened := opened w @ [(f, ForReading), (f, ForWriting)]\<rparr>)
            = Returns (w\<lparr>out := out w @ [Complete f],
                         opened := opened w @ [(f, ForReading), (f, ForWriting),
                                               (f, ForReading)]\<rparr>))"
proof -
  from assms(4) have clean: "\<forall>line \<in> set lines. lint_line line = []"
    by (simp add: lint_lines_def lint_from_Nil)
  have "map fix_pointer_spacing lines = lines"
    using clean by (intro map_idI) (auto dest!: lint_line_Nil intro: fix_pointer_spacing_clean)
  moreover have "fix_brace_placement lines = lines"
    using clean assms(5)
    by (intro fix_brace_placement_same rewrite_line_clean) (auto dest!: lint_line_Nil)
  ultimately have f: "fix_lines lines = lines" by (simp add: fix_lines_def)
  then have g: "fix_brace_placement (map fix_pointer_spacing (readlines (universal_newlines raw)))
      = readlines (universal_newlines raw)"
    by (simp add: fix_lines_def assms(3))
  have "to_linesep (linesep (crlf w)) (writelines (readlines (universal_newlines raw))) = raw"
    by (simp add: writelines_def concat_readlines native_round_trip[OF assms(6)])
  with assms(1) have s: "(data w)(f \<mapsto> to_linesep (linesep (crlf w))
        (writelines (readlines (universal_newlines raw)))) = data w"
    by (simp add: fun_upd_idem_iff)
  have fixed: "lint_and_fix_c_file f w
      = print (Complete f) (w\<lparr>opened := opened w @ [(f, ForReading), (f, ForWriting)]\<rparr>)"
    using assms(1,2) by (simp add: lint_and_fix_c_file_def Let_def open_file_def g s)
  then have d: "data (after_run (lint_and_fix_c_file f w)) = data w"
    by (simp add: print_def)
  have l: "lint_c_code f (w\<lparr>out := out w @ [Complete f],
                         opened := opened w @ [(f, ForReading), (f, ForWriting)]\<rparr>)
            = Returns (w\<lparr>out := out w @ [Complete f],
                         opened := opened w @ [(f, ForReading), (f, ForWriting),
                                               (f, ForReading)]\<rparr>)"
    using assms(1,4) by (simp add: lint_c_code_def Let_def open_file_def assms(3)[symmetric])
  from f assms(4) d fixed l show ?thesis by (simp add: print_def)
qed

theorem C1_compliant_unchanged_witness:
  "lint_lines (readlines (universal_newlines (''int x;'' @ NL @ ''{'' @ NL @ ''}''))) = []
   \<and> fix_lines [''int x;'' @ NL, ''{'' @ NL, ''}''] = [''int x;'' @ NL, ''{'' @ NL, ''}'']
   \<and> data (after_run (lint_and_fix_c_file ''a.c'' clean_file_world)) = data clean_file_world
   \<and> lint_and_fix_c_file ''a.c'' clean_file_world
       = Returns (clean_file_world\<lparr>out := [Complete ''a.c''],
                    opened := [(''a.c'', ForReading), (''a.c'', ForWriting)]\<rparr>)"
proof -
  let ?raw = "''int x;'' @ NL @ ''{'' @ NL @ ''}''"
  let ?lines = "[''int x;'' @ NL, ''{'' @ NL, ''}'']"
  have d: "data clean_file_world ''a.c'' = Some ?raw" by (simp add: clean_file_world_def)
  have w: "writable clean_file_world ''a.c''" by (simp add: clean_file_world_def)
  have r: "?lines = readlines (universal_newlines ?raw)" by code_simp
  have a: "lint_lines ?lines = []" by code_simp
  have b: "\<forall>line \<in> set ?lines. lone_brace line \<or> re_match ELSE_BRACE_PATTERN line = None"
    by code_simp
  have n: "native_line_ends (crlf clean_file_world) ?raw"
    by (simp add: clean_file_world_def)
  have p: "printable clean_file_world (Complete ''a.c'')" "out clean_file_world = []"
    "opened clean_file_world = []"
    by (simp_all add: clean_file_world_def)
  note c = C1_compliant_unchanged[OF d w r a b n]
  from c have "fix_lines ?lines = ?lines" by blast
  moreover from c have "data (after_run (lint_and_fix_c_file ''a.c'' clean_file_world))
      = data clean_file_world" by blast
  moreover from c p have "lint_and_fix_c_file ''a.c'' clean_file_world
       = Returns (clean_file_world\<lparr>out := [Complete ''a.c''],
                    opened := [(''a.c'', ForReading), (''a.c'', ForWriting)]\<rparr>)"
    by simp
  moreover from a r have "lint_lines (readlines (universal_newlines ?raw)) = []" by simp
  ultimately show ?thesis by blast
qed

text \<open>
  The claim as stated fails on the line \<open>} else {\<close>: none of the four checks of the
  Linter finds anything on it, and the Rewriter splits it into three lines. It fails as
  well on a file whose line ends in a carriage return and a line feed, where
  \<open>os.linesep\<close> is the line feed: the Linter reports nothing, the fix pass returns
  the line as read, and the text written back has lost the carriage return.
\<close>

theorem C1_counterexample:
  "lint_lines (readlines (universal_newlines (''} else {'' @ NL))) = []
   \<and> fix_lines (readlines (universal_newlines (''} else {'' @ NL)))
       = [''}'' @ NL, ''else'' @ NL, ''{'' @ NL]
   \<and> data crlf_file_world ''a.c'' = Some (''int x;'' @ [CHR 0x0D, CHR 0x0A])
   \<and> lint_lines (readlines (universal_newlines (''int x;'' @ [CHR 0x0D, CHR 0x0A]))) = []
   \<and> fix_lines (readlines (universal_newlines (''int x;'' @ [CHR 0x0D, CHR 0x0A])))
       = readlines (universal_newlines (''int x;'' @ [CHR 0x0D, CHR 0x0A]))
   \<and> data (after_run (lint_and_fix_c_file ''a.c'' crlf_file_world)) ''a.c''
       = Some (''int x;'' @ [CHR 0x0A])"
proof -
  have a: "lint_lines (readlines (universal_newlines (''} else {'' @ NL))) = []" by code_simp
  have b: "fix_lines (readlines (universal_newlines (''} else {'' @ NL)))
       = [''}'' @ NL, ''else'' @ NL, ''{'' @ NL]" by code_simp
  have c: "data crlf_file_world ''a.c'' = Some (''int x;'' @ [CHR 0x0D, CHR 0x0A])"
    by (simp add: crlf_file_world_def)
  have d: "lint_lines (readlines (universal_newlines (''int x;'' @ [CHR 0x0D, CHR 0x0A]))) = []"
    by code_simp
  have r: "readlines (universal_newlines (''int x;'' @ [CHR 0x0D, CHR 0x0A])) = [''int x;'' @ [CHR 0x0A]]"
    by code_simp
  have e: "fix_lines [''int x;'' @ [CHR 0x0A]] = [''int x;'' @ [CHR 0x0A]]"
    by code_simp
  have e': "fix_brace_placement (map fix_pointer_spacing [''int x;'' @ [CHR 0x0A]]) = [''int x;'' @ [CHR 0x0A]]"
    using e by (simp add: fix_lines_def)
  have f: "data (after_run (lint_and_fix_c_file ''a.c'' crlf_file_world)) ''a.c''
       = Some (''int x;'' @ [CHR 0x0A])"
  proof -
    have "writable crlf_file_world ''a.c''" by (simp add: crlf_file_world_def)
    from fix_file_stores[OF c this]
    have "data (after_run (lint_and_fix_c_file ''a.c'' crlf_file_world)) ''a.c''
        = Some (to_linesep (linesep (crlf crlf_file_world)) (writelines [''int x;'' @ [CHR 0x0A]]))"
      unfolding r e .
    then show ?thesis
      by (simp add: crlf_file_world_def writelines_def to_linesep_def linesep_def)
  qed
  from a b c d r e f show ?thesis by simp
qed

section \<open>The command line\<close>










text \<open>
  C10. When the target is an existing directory whose subtree has no file ending in
  \<open>.c\<close> or \<open>.h\<close>, the run ends with status 0 and leaves the environment as it
  was: nothing is printed, no file is opened, no text changes; whatever the second
  argument says.
\<close>

theorem C10_no_c_files:
  assumes "3 \<le> length argv" and "\<not> isfile w (argv ! 1)" and "isdir w (argv ! 1)"
    and "\<forall>(root, files) \<in> set (walk w (argv ! 1)). \<forall>f \<in> set files. \<not> endswith f C_EXTENSIONS"
  shows "main argv w = (Completed, w) \<and> exit_status (fst (main argv w)) = 0"
proof -
  have "filter (\<lambda>f. endswith f C_EXTENSIONS) files = []"
    if "(root, files) \<in> set (walk w (argv ! 1))" for root files
    using that assms(4) by (auto simp: filter_empty_conv)
  then have "get_all_c_files (argv ! 1) w = []"
    by (auto simp: get_all_c_files_def)
  with assms(1-3) show ?thesis
    by (simp add: main_def Let_def)
qed

theorem C10_no_c_files_witness:
  "main [''c_linter.py'', ''docs'', ''true''] text_dir_world = (Completed, text_dir_world)
   \<and> exit_status (fst (main [''c_linter.py'', ''docs'', ''true''] text_dir_world)) = 0
   \<and> out text_dir_world = [] \<and> opened text_dir_world = []"
proof -
  have a: "3 \<le> length [''c_linter.py'', ''docs'', ''true'']" by simp
  have b: "\<not> isfile text_dir_world ([''c_linter.py'', ''docs'', ''true''] ! 1)"
    by (simp add: text_dir_world_def)
  have c: "isdir text_dir_world ([''c_linter.py'', ''docs'', ''true''] ! 1)"
    by (simp add: text_dir_world_def)
  have d: "\<forall>(root, files) \<in> set (walk text_dir_world ([''c_linter.py'', ''docs'', ''true''] ! 1)).
             \<forall>f \<in> set files. \<not> endswith f C_EXTENSIONS"
    by (simp add: text_dir_world_def endswith_def C_EXTENSIONS_def suffix_def)
  from C10_no_c_files[OF a b c d] show ?thesis
    by (simp add: text_dir_world_def)
qed

end
